theory Spec2Isabelle
  imports Main "HOL-Library.Word" "HOL-Library.Signed_Division" "HOL-Library.Multiset"
begin

section \<open>Machine integers\<close>

text \<open>
  A C \<open>int\<close> and an \<open>atomic_int\<close> are 32-bit two's complement values: \<open>+\<close>, \<open>-\<close> and
  \<open>*\<close> wrap around, \<open>sint\<close> reads the signed value, and comparisons are made on
  \<open>sint\<close>. The remainder \<open>a % b\<close> of C truncates towards zero (\<open>smod\<close> on \<open>int\<close>).
\<close>

type_synonym cint = "32 word"

definition c_rem :: "cint \<Rightarrow> cint \<Rightarrow> cint" where
  "c_rem a b = word_of_int (sint a smod sint b)"

definition MAX_QUEUE_SIZE :: cint where
  "MAX_QUEUE_SIZE = 256"

definition MEMORY_POOL_SIZE :: cint where
  "MEMORY_POOL_SIZE = 10000000"

section \<open>The primality test\<close>

text \<open>
  The loop \<open>for (int i = 5; i * i <= n; i += 6)\<close> of \<open>isPrime\<close>. The result \<open>None\<close> stands
  for a run that gives no value: one that never leaves the loop, or one that divides by
  zero. The disjunction \<open>n % i == 0 || n % (i + 2) == 0\<close> is evaluated left to right.
\<close>

partial_function (option) isPrime_loop :: "cint \<Rightarrow> cint \<Rightarrow> bool option" where
  "isPrime_loop n i =
     (if sint (i * i) \<le> sint n then
        (if i = 0 then None
         else if c_rem n i = 0 then Some False
         else if i + 2 = 0 then None
         else if c_rem n (i + 2) = 0 then Some False
         else isPrime_loop n (i + 6))
      else Some True)"

declare isPrime_loop.simps [code]

definition isPrime :: "cint \<Rightarrow> bool option" where
  "isPrime n =
     (if sint n \<le> 1 then Some False
      else if sint n \<le> 3 then Some True
      else if c_rem n 2 = 0 \<or> c_rem n 3 = 0 then Some False
      else isPrime_loop n 5)"


section \<open>Memory: nodes, the queue and the arena\<close>

text \<open>
  A \<open>Node *\<close> is \<open>None\<close> (the null pointer) or the address of a node obtained from
  \<open>malloc\<close>: an index into \<open>heap\<close>, whose freed cells are \<open>None\<close>. \<open>malloc\<close> hands out
  fresh addresses in order and fails once \<open>heap_limit\<close> nodes exist. A node's \<open>value\<close>
  is \<open>None\<close> until it is assigned (the sentinel's never is). The program has one
  \<open>Queue\<close> (fields \<open>q_head\<close>, \<open>q_tail\<close>, \<open>q_size\<close>) and one \<open>MemoryPool\<close>
  (\<open>pool_index\<close>, and \<open>pool_nodes\<close>: the \<open>value\<close> field of each slot of \<open>nodes\<close>, the
  only field of a slot the program touches); a slot is named by its index.
\<close>

datatype error = OutOfMemory | ArenaExhausted | InvalidPointer | UninitializedRead

record Node =
  node_value :: "cint option"
  node_next :: "nat option"

record memory =
  heap :: "Node option list"
  heap_limit :: nat
  q_head :: "nat option"
  q_tail :: "nat option"
  q_size :: cint
  pool_index :: cint
  pool_nodes :: "cint \<Rightarrow> cint option"

definition malloc_node :: "'a memory_scheme \<Rightarrow> (nat \<times> 'a memory_scheme) option" where
  "malloc_node m =
     (if length (heap m) < heap_limit m
      then Some (length (heap m),
                 m\<lparr>heap := heap m @ [Some \<lparr>node_value = None, node_next = None\<rparr>]\<rparr>)
      else None)"

definition node_at :: "'a memory_scheme \<Rightarrow> nat option \<Rightarrow> Node option" where
  "node_at m p =
     (case p of None \<Rightarrow> None
      | Some a \<Rightarrow> if a < length (heap m) then heap m ! a else None)"

definition set_node :: "nat \<Rightarrow> Node \<Rightarrow> 'a memory_scheme \<Rightarrow> 'a memory_scheme" where
  "set_node a n m = m\<lparr>heap := (heap m)[a := Some n]\<rparr>"

definition free_node :: "nat \<Rightarrow> 'a memory_scheme \<Rightarrow> 'a memory_scheme" where
  "free_node a m = m\<lparr>heap := (heap m)[a := None]\<rparr>"

definition createQueue :: "'a memory_scheme \<Rightarrow> error + 'a memory_scheme" where
  "createQueue m =
     (case malloc_node m of
        None \<Rightarrow> Inl OutOfMemory
      | Some (dummy, m1) \<Rightarrow>
          Inr (m1\<lparr>heap := (heap m1)[dummy := Some \<lparr>node_value = None, node_next = None\<rparr>],
                  q_head := Some dummy, q_tail := Some dummy, q_size := 0\<rparr>))"

text \<open>
  \<open>enqueue\<close> as one thread runs it with nobody else touching the queue. Each
  \<open>__sync_bool_compare_and_swap (p, old, new)\<close> is the test \<open>*p = old\<close> followed by the
  store.
\<close>

partial_function (option) enqueue_loop ::
  "nat \<Rightarrow> 'a memory_scheme \<Rightarrow> (error + 'a memory_scheme) option" where
  "enqueue_loop newNode m =
     (let tail = q_tail m in
      case node_at m tail of
        None \<Rightarrow> Some (Inl InvalidPointer)
      | Some tn \<Rightarrow>
          let next = node_next tn in
          if tail = q_tail m then
            (if next = None then
               (case node_at m tail of
                  None \<Rightarrow> Some (Inl InvalidPointer)
                | Some tn' \<Rightarrow>
                    if node_next tn' = next then
                      (let m1 = set_node (the tail) (tn'\<lparr>node_next := Some newNode\<rparr>) m;
                           m2 = (if q_tail m1 = tail then m1\<lparr>q_tail := Some newNode\<rparr> else m1)
                       in Some (Inr (m2\<lparr>q_size := q_size m2 + 1\<rparr>)))
                    else enqueue_loop newNode m)
             else enqueue_loop newNode (if q_tail m = tail then m\<lparr>q_tail := next\<rparr> else m))
          else enqueue_loop newNode m)"

declare enqueue_loop.simps [code]

definition enqueue :: "cint \<Rightarrow> 'a memory_scheme \<Rightarrow> (error + 'a memory_scheme) option" where
  "enqueue v m =
     (case malloc_node m of
        None \<Rightarrow> Some (Inl OutOfMemory)
      | Some (newNode, m1) \<Rightarrow>
          enqueue_loop newNode
            (set_node newNode \<lparr>node_value = Some v, node_next = None\<rparr> m1))"

text \<open>
  \<open>dequeue\<close> returns an \<open>int\<close>: \<open>-1\<close> on the path "Queue is empty", else the value read
  from \<open>next\<close>, after storing the old head in \<open>*dequeuedNode\<close>. The model keeps the path
  apart (\<open>Empty\<close> or \<open>Dequeued value node\<close>); \<open>returned\<close> is the \<open>int\<close> the caller gets.
\<close>

datatype dequeue_result = Empty | Dequeued cint "nat option"


partial_function (option) dequeue ::
  "'a memory_scheme \<Rightarrow> (error + dequeue_result \<times> 'a memory_scheme) option" where
  "dequeue m =
     (let head = q_head m; tail = q_tail m in
      case node_at m head of
        None \<Rightarrow> Some (Inl InvalidPointer)
      | Some hn \<Rightarrow>
          let next = node_next hn in
          if head = q_head m then
            (if head = tail then
               (if next = None then Some (Inr (Empty, m))
                else dequeue (if q_tail m = tail then m\<lparr>q_tail := next\<rparr> else m))
             else
               (case node_at m next of
                  None \<Rightarrow> Some (Inl InvalidPointer)
                | Some nn \<Rightarrow>
                    (case node_value nn of
                       None \<Rightarrow> Some (Inl UninitializedRead)
                     | Some v \<Rightarrow>
                         if q_head m = head
                         then Some (Inr (Dequeued v head,
                                         m\<lparr>q_head := next, q_size := q_size m - 1\<rparr>))
                         else dequeue m)))
          else dequeue m)"

declare dequeue.simps [code]

definition createMemoryPool :: "'a memory_scheme \<Rightarrow> 'a memory_scheme" where
  "createMemoryPool m = m\<lparr>pool_index := 0\<rparr>"

text \<open>
  \<open>allocateNode\<close>: the fetch-and-add comes first, so the index is incremented on the
  failing path too, before \<open>exit (EXIT_FAILURE)\<close>.
\<close>

definition allocateNode :: "'a memory_scheme \<Rightarrow> error + cint \<times> 'a memory_scheme" where
  "allocateNode m =
     (let idx = pool_index m;
          m1 = m\<lparr>pool_index := pool_index m + 1\<rparr>
      in if sint MEMORY_POOL_SIZE \<le> sint idx then Inl ArenaExhausted
         else Inr (idx, m1))"

text \<open>Successive calls of \<open>allocateNode\<close>, stopping at the first that fails.\<close>

fun allocate_many :: "nat \<Rightarrow> 'a memory_scheme \<Rightarrow> error + cint list \<times> 'a memory_scheme" where
  "allocate_many 0 m = Inr ([], m)"
| "allocate_many (Suc k) m =
     (case allocateNode m of
        Inl e \<Rightarrow> Inl e
      | Inr (slot, m1) \<Rightarrow>
          (case allocate_many k m1 of
             Inl e \<Rightarrow> Inl e
           | Inr (slots, m2) \<Rightarrow> Inr (slot # slots, m2)))"

partial_function (option) freeQueue ::
  "'a memory_scheme \<Rightarrow> (error + 'a memory_scheme) option" where
  "freeQueue m =
     (case q_head m of
        None \<Rightarrow> Some (Inr m)
      | Some temp \<Rightarrow>
          (case node_at m (Some temp) of
             None \<Rightarrow> Some (Inl InvalidPointer)
           | Some tn \<Rightarrow> freeQueue (free_node temp (m\<lparr>q_head := node_next tn\<rparr>))))"

declare freeQueue.simps [code]

text \<open>The memory of the process before \<open>main\<close> has created anything.\<close>

definition empty_memory :: "nat \<Rightarrow> memory" where
  "empty_memory limit =
     \<lparr>heap = [], heap_limit = limit, q_head = None, q_tail = None, q_size = 0,
      pool_index = 0, pool_nodes = (\<lambda>_. None)\<rparr>"

section \<open>The run of \<open>main\<close>: one producer, the workers, one step at a time\<close>

text \<open>
  The threads of the process share the memory above, \<open>total_counter\<close> and \<open>done\<close>
  (\<open>done_flag\<close>). A thread's step is one access to shared memory together with the
  local computation around it; a run is a schedule, the list of the threads that step in
  turn (sequential consistency, each thread in program order). A program counter names
  the access a thread is about to make:

  \<^item> \<open>main\<close>: \<open>P_scan\<close> (\<open>scanf\<close>), \<open>P_wait\<close> (the load of \<open>size\<close> in the backpressure
    loop), \<open>P_alloc\<close> (\<open>allocateNode\<close>), \<open>P_store\<close> (\<open>node->value = num\<close>), then
    \<open>enqueue (queue, node->value)\<close>: \<open>E_malloc\<close>, \<open>E_tail\<close> (\<open>tail = queue->tail\<close>),
    \<open>E_next\<close> (\<open>next = tail->next\<close>), \<open>E_check\<close> (\<open>tail == queue->tail\<close>), \<open>E_link\<close>
    (the compare-and-swap of \<open>tail->next\<close>), \<open>E_swing\<close> (that of \<open>queue->tail\<close> after
    it), \<open>E_inc\<close> (the fetch-and-add of \<open>size\<close>), \<open>E_help\<close> (the compare-and-swap
    of \<open>queue->tail\<close> in the other branch); \<open>P_done\<close> (the store of \<open>done\<close>), \<open>P_join\<close>,
    \<open>P_print\<close>, \<open>P_free\<close> (\<open>freeQueue\<close>, with no other thread left), \<open>P_end\<close>.
  \<^item> a worker: \<open>W_done\<close> and \<open>W_size\<close> (the two loads of the loop condition), then
    \<open>dequeue\<close>: \<open>D_head\<close>, \<open>D_tail\<close>, \<open>D_next\<close> (the three loads), \<open>D_check\<close>
    (\<open>head == queue->head\<close> and the branches on the locals), \<open>D_help\<close>, \<open>D_value\<close>
    (\<open>value = next->value\<close>), \<open>D_cas\<close> (the compare-and-swap of \<open>queue->head\<close>),
    \<open>D_dec\<close> (the fetch-and-sub of \<open>size\<close>, and the return); \<open>W_num\<close> (the test
    \<open>num == -1\<close> and the call of \<open>isPrime\<close>), \<open>W_sleep\<close> (\<open>usleep\<close>), \<open>W_add\<close> (the
    fetch-and-add of \<open>total_counter\<close>), \<open>W_exit\<close> (returned).

  \<open>exit (EXIT_FAILURE)\<close> and a fault stop every thread: \<open>exited\<close> holds the reason.
  \<open>stdin\<close> is the input not yet read, \<open>stdout\<close> the total once it is printed. The
  workers are \<open>numCPU\<close> many, at least one; they are taken to start together, before the
  first \<open>scanf\<close> (while \<open>main\<close> is still creating threads, a worker only polls the empty
  queue).
\<close>

datatype main_pc =
  P_scan | P_wait | P_alloc | P_store | E_malloc | E_tail | E_next | E_check | E_link
  | E_swing | E_inc | E_help | P_done | P_join | P_print | P_free | P_end

datatype worker_pc =
  W_done | W_size | D_head | D_tail | D_next | D_check | D_help | D_value | D_cas | D_dec
  | W_num | W_sleep | W_add | W_exit

record worker =
  wpc :: worker_pc
  w_num :: cint
  w_dequeuedNode :: "nat option"
  d_head :: "nat option"
  d_tail :: "nat option"
  d_next :: "nat option"
  d_value :: cint

record system = memory +
  total_counter :: cint
  done_flag :: bool
  stdin :: "cint list"
  stdout :: "cint option"
  exited :: "error option"
  mpc :: main_pc
  m_num :: cint
  m_total_numbers :: cint
  m_node :: cint
  e_value :: cint
  e_newNode :: nat
  e_tail :: "nat option"
  e_next :: "nat option"
  workers :: "worker list"

definition set_worker :: "nat \<Rightarrow> worker \<Rightarrow> system \<Rightarrow> system" where
  "set_worker i w s = s\<lparr>workers := (workers s)[i := w]\<rparr>"

definition worker_step :: "nat \<Rightarrow> system \<Rightarrow> system" where
  "worker_step i s =
     (let w = workers s ! i in
      case wpc w of
        W_done \<Rightarrow> set_worker i (w\<lparr>wpc := if \<not> done_flag s then D_head else W_size\<rparr>) s
      | W_size \<Rightarrow> set_worker i (w\<lparr>wpc := if 0 < sint (q_size s) then D_head else W_exit\<rparr>) s
      | D_head \<Rightarrow> set_worker i (w\<lparr>d_head := q_head s, wpc := D_tail\<rparr>) s
      | D_tail \<Rightarrow> set_worker i (w\<lparr>d_tail := q_tail s, wpc := D_next\<rparr>) s
      | D_next \<Rightarrow>
          (case node_at s (d_head w) of
             None \<Rightarrow> s\<lparr>exited := Some InvalidPointer\<rparr>
           | Some hn \<Rightarrow> set_worker i (w\<lparr>d_next := node_next hn, wpc := D_check\<rparr>) s)
      | D_check \<Rightarrow>
          if d_head w = q_head s then
            (if d_head w = d_tail w then
               (if d_next w = None then set_worker i (w\<lparr>w_num := - 1, wpc := W_num\<rparr>) s
                else set_worker i (w\<lparr>wpc := D_help\<rparr>) s)
             else set_worker i (w\<lparr>wpc := D_value\<rparr>) s)
          else set_worker i (w\<lparr>wpc := D_head\<rparr>) s
      | D_help \<Rightarrow>
          set_worker i (w\<lparr>wpc := D_head\<rparr>)
            (if q_tail s = d_tail w then s\<lparr>q_tail := d_next w\<rparr> else s)
      | D_value \<Rightarrow>
          (case node_at s (d_next w) of
             None \<Rightarrow> s\<lparr>exited := Some InvalidPointer\<rparr>
           | Some nn \<Rightarrow>
               (case node_value nn of
                  None \<Rightarrow> s\<lparr>exited := Some UninitializedRead\<rparr>
                | Some v \<Rightarrow> set_worker i (w\<lparr>d_value := v, wpc := D_cas\<rparr>) s))
      | D_cas \<Rightarrow>
          if q_head s = d_head w
          then set_worker i (w\<lparr>wpc := D_dec\<rparr>) (s\<lparr>q_head := d_next w\<rparr>)
          else set_worker i (w\<lparr>wpc := D_head\<rparr>) s
      | D_dec \<Rightarrow>
          set_worker i (w\<lparr>w_dequeuedNode := d_head w, w_num := d_value w, wpc := W_num\<rparr>)
            (s\<lparr>q_size := q_size s - 1\<rparr>)
      | W_num \<Rightarrow>
          if w_num w = - 1 then set_worker i (w\<lparr>wpc := W_sleep\<rparr>) s
          else
            (case isPrime (w_num w) of
               None \<Rightarrow> s
             | Some b \<Rightarrow> set_worker i (w\<lparr>wpc := if b then W_add else W_done\<rparr>) s)
      | W_sleep \<Rightarrow> set_worker i (w\<lparr>wpc := W_done\<rparr>) s
      | W_add \<Rightarrow>
          set_worker i (w\<lparr>wpc := W_done\<rparr>) (s\<lparr>total_counter := total_counter s + 1\<rparr>)
      | W_exit \<Rightarrow> s)"

definition main_step :: "system \<Rightarrow> system" where
  "main_step s =
     (case mpc s of
        P_scan \<Rightarrow>
          (case stdin s of
             [] \<Rightarrow> s\<lparr>mpc := P_done\<rparr>
           | x # xs \<Rightarrow> s\<lparr>m_num := x, stdin := xs, mpc := P_wait\<rparr>)
      | P_wait \<Rightarrow>
          if sint MAX_QUEUE_SIZE \<le> sint (q_size s) then s else s\<lparr>mpc := P_alloc\<rparr>
      | P_alloc \<Rightarrow>
          (case allocateNode s of
             Inl e \<Rightarrow> s\<lparr>exited := Some e\<rparr>
           | Inr (node, s1) \<Rightarrow> s1\<lparr>m_node := node, mpc := P_store\<rparr>)
      | P_store \<Rightarrow>
          s\<lparr>pool_nodes := (pool_nodes s)(m_node s := Some (m_num s)), mpc := E_malloc\<rparr>
      | E_malloc \<Rightarrow>
          (case pool_nodes s (m_node s) of
             None \<Rightarrow> s\<lparr>exited := Some UninitializedRead\<rparr>
           | Some v \<Rightarrow>
               (case malloc_node s of
                  None \<Rightarrow> s\<lparr>exited := Some OutOfMemory\<rparr>
                | Some (newNode, s1) \<Rightarrow>
                    (set_node newNode \<lparr>node_value = Some v, node_next = None\<rparr> s1)
                      \<lparr>e_value := v, e_newNode := newNode, mpc := E_tail\<rparr>))
      | E_tail \<Rightarrow> s\<lparr>e_tail := q_tail s, mpc := E_next\<rparr>
      | E_next \<Rightarrow>
          (case node_at s (e_tail s) of
             None \<Rightarrow> s\<lparr>exited := Some InvalidPointer\<rparr>
           | Some tn \<Rightarrow> s\<lparr>e_next := node_next tn, mpc := E_check\<rparr>)
      | E_check \<Rightarrow>
          if e_tail s = q_tail s
          then (if e_next s = None then s\<lparr>mpc := E_link\<rparr> else s\<lparr>mpc := E_help\<rparr>)
          else s\<lparr>mpc := E_tail\<rparr>
      | E_link \<Rightarrow>
          (case node_at s (e_tail s) of
             None \<Rightarrow> s\<lparr>exited := Some InvalidPointer\<rparr>
           | Some tn \<Rightarrow>
               if node_next tn = e_next s
               then (set_node (the (e_tail s)) (tn\<lparr>node_next := Some (e_newNode s)\<rparr>) s)
                      \<lparr>mpc := E_swing\<rparr>
               else s\<lparr>mpc := E_tail\<rparr>)
      | E_swing \<Rightarrow>
          (if q_tail s = e_tail s then s\<lparr>q_tail := Some (e_newNode s)\<rparr> else s)
            \<lparr>mpc := E_inc\<rparr>
      | E_inc \<Rightarrow>
          s\<lparr>q_size := q_size s + 1, m_total_numbers := m_total_numbers s + 1, mpc := P_scan\<rparr>
      | E_help \<Rightarrow>
          (if q_tail s = e_tail s then s\<lparr>q_tail := e_next s\<rparr> else s)\<lparr>mpc := E_tail\<rparr>
      | P_done \<Rightarrow> s\<lparr>done_flag := True, mpc := P_join\<rparr>
      | P_join \<Rightarrow>
          if \<forall>w \<in> set (workers s). wpc w = W_exit then s\<lparr>mpc := P_print\<rparr> else s
      | P_print \<Rightarrow> s\<lparr>stdout := Some (total_counter s), mpc := P_free\<rparr>
      | P_free \<Rightarrow>
          (case freeQueue s of
             None \<Rightarrow> s
           | Some (Inl e) \<Rightarrow> s\<lparr>exited := Some e\<rparr>
           | Some (Inr s1) \<Rightarrow> s1\<lparr>mpc := P_end\<rparr>)
      | P_end \<Rightarrow> s)"

datatype thread = Main | Worker nat

definition step :: "thread \<Rightarrow> system \<Rightarrow> system" where
  "step t s =
     (if exited s \<noteq> None then s
      else case t of
        Main \<Rightarrow> main_step s
      | Worker i \<Rightarrow> if i < length (workers s) then worker_step i s else s)"

fun exec :: "thread list \<Rightarrow> system \<Rightarrow> system" where
  "exec [] s = s"
| "exec (t # ts) s = exec ts (step t s)"

definition new_worker :: worker where
  "new_worker =
     \<lparr>wpc = W_done, w_num = 0, w_dequeuedNode = None, d_head = None, d_tail = None,
      d_next = None, d_value = 0\<rparr>"

definition boot :: "nat \<Rightarrow> int \<Rightarrow> cint list \<Rightarrow> system" where
  "boot limit numCPU xs =
     \<lparr>heap = [], heap_limit = limit, q_head = None, q_tail = None, q_size = 0,
      pool_index = 0, pool_nodes = (\<lambda>_. None),
      total_counter = 0, done_flag = False, stdin = xs, stdout = None, exited = None,
      mpc = P_scan, m_num = 0, m_total_numbers = 0, m_node = 0, e_value = 0, e_newNode = 0,
      e_tail = None, e_next = None,
      workers = replicate (nat (max numCPU 1)) new_worker\<rparr>"

definition start :: "nat \<Rightarrow> int \<Rightarrow> cint list \<Rightarrow> system" where
  "start limit numCPU xs =
     (case createQueue (boot limit numCPU xs) of
        Inl e \<Rightarrow> (boot limit numCPU xs)\<lparr>exited := Some e\<rparr>
      | Inr s \<Rightarrow> createMemoryPool s)"

text \<open>
  \<open>run limit numCPU xs sched\<close>: the state of the process on the input \<open>xs\<close>, with
  \<open>limit\<close> nodes of heap and \<open>numCPU\<close> processors reported, after the schedule \<open>sched\<close>.
\<close>

definition run :: "nat \<Rightarrow> int \<Rightarrow> cint list \<Rightarrow> thread list \<Rightarrow> system" where
  "run limit numCPU xs sched = exec sched (start limit numCPU xs)"

definition count_primes :: "cint list \<Rightarrow> nat" where
  "count_primes xs = length (filter (\<lambda>x. isPrime x = Some True) xs)"

text \<open>The candidates the loop is entered with: above 3, odd, no multiple of 3.\<close>

definition candidate :: "cint \<Rightarrow> bool" where
  "candidate n \<longleftrightarrow> 3 < sint n \<and> \<not> 2 dvd sint n \<and> \<not> 3 dvd sint n"

definition loop_inv :: "cint \<Rightarrow> cint \<Rightarrow> bool" where
  "loop_inv n i \<longleftrightarrow> 5 \<le> sint i \<and> sint i \<le> sint n \<and> sint i mod 6 = 5"


section \<open>The invariant of the run\<close>

text \<open>
  With one producer the nodes are made and linked in input order: the sentinel is node
  \<open>0\<close>, the node of the \<open>k\<close>-th value is node \<open>k\<close>. \<open>nodes\<close> counts the value nodes made,
  \<open>linked\<close> those already in the chain; \<open>cell xs l a\<close> is the content of node \<open>a\<close> when
  \<open>l\<close> nodes are linked. The functions of \<open>main\<close>'s program counter say where \<open>main\<close>
  stands with the value it is handling: read but without a node (\<open>holding\<close>), with a
  claimed slot (\<open>claimed\<close>), with a node not yet linked (\<open>unlinked\<close>), linked but not yet
  counted in \<open>size\<close> (\<open>uncounted\<close>), past the backpressure loop and before the increment
  (\<open>admitted\<close>), after the store of \<open>done\<close> (\<open>finishing\<close>). A worker's \<open>credit\<close> is what it
  still owes to \<open>total_counter\<close> for a value it has taken.
\<close>

fun unlinked :: "main_pc \<Rightarrow> nat" where
  "unlinked E_tail = 1" | "unlinked E_next = 1" | "unlinked E_check = 1"
| "unlinked E_link = 1" | "unlinked E_help = 1" | "unlinked _ = 0"

fun uncounted :: "main_pc \<Rightarrow> nat" where
  "uncounted E_swing = 1" | "uncounted E_inc = 1" | "uncounted pc = unlinked pc"

fun holding :: "main_pc \<Rightarrow> nat" where
  "holding P_wait = 1" | "holding P_alloc = 1" | "holding P_store = 1"
| "holding E_malloc = 1" | "holding _ = 0"

fun claimed :: "main_pc \<Rightarrow> nat" where
  "claimed P_store = 1" | "claimed E_malloc = 1" | "claimed _ = 0"

fun admitted :: "main_pc \<Rightarrow> bool" where
  "admitted P_alloc = True" | "admitted P_store = True" | "admitted E_malloc = True"
| "admitted E_swing = True" | "admitted E_inc = True" | "admitted pc = (unlinked pc = 1)"

fun finishing :: "main_pc \<Rightarrow> bool" where
  "finishing P_join = True" | "finishing P_print = True" | "finishing P_free = True"
| "finishing P_end = True" | "finishing _ = False"

definition nodes :: "'a memory_scheme \<Rightarrow> nat" where
  "nodes s = length (heap s) - 1"

definition linked :: "system \<Rightarrow> nat" where
  "linked s = nodes s - unlinked (mpc s)"

definition qh :: "'a memory_scheme \<Rightarrow> nat" where
  "qh s = the (q_head s)"

definition qt :: "'a memory_scheme \<Rightarrow> nat" where
  "qt s = the (q_tail s)"

definition cell :: "cint list \<Rightarrow> nat \<Rightarrow> nat \<Rightarrow> Node option" where
  "cell xs l a =
     Some \<lparr>node_value = (if a = 0 then None else Some (xs ! (a - 1))),
           node_next = (if a < l then Some (Suc a) else None)\<rparr>"

definition shaped :: "cint list \<Rightarrow> nat \<Rightarrow> Node option list \<Rightarrow> bool" where
  "shaped xs l hp \<longleftrightarrow> (\<forall>a < length hp. hp ! a = cell xs l a)"

definition prime_bit :: "cint \<Rightarrow> nat" where
  "prime_bit v = (if isPrime v = Some True then 1 else 0)"

definition credit :: "worker \<Rightarrow> nat" where
  "credit w =
     (case wpc w of D_dec \<Rightarrow> prime_bit (d_value w) | W_num \<Rightarrow> prime_bit (w_num w)
      | W_add \<Rightarrow> 1 | _ \<Rightarrow> 0)"

definition decrementing :: "worker \<Rightarrow> nat" where
  "decrementing w = (if wpc w = D_dec then 1 else 0)"

definition head_ok :: "system \<Rightarrow> worker \<Rightarrow> bool" where
  "head_ok s w \<longleftrightarrow> d_head w \<noteq> None \<and> the (d_head w) \<le> qh s"

definition tail_ok :: "system \<Rightarrow> worker \<Rightarrow> bool" where
  "tail_ok s w \<longleftrightarrow>
     d_tail w \<noteq> None \<and> the (d_head w) \<le> the (d_tail w) \<and> the (d_tail w) \<le> qt s"

definition next_ok :: "system \<Rightarrow> worker \<Rightarrow> bool" where
  "next_ok s w \<longleftrightarrow>
     (d_next w = None \<or>
      d_next w = Some (Suc (the (d_head w))) \<and> the (d_head w) < linked s) \<and>
     (the (d_head w) < the (d_tail w) \<longrightarrow> d_next w \<noteq> None)"

definition next_set :: "worker \<Rightarrow> bool" where
  "next_set w \<longleftrightarrow> d_next w = Some (Suc (the (d_head w)))"

definition queue_inv :: "cint list \<Rightarrow> system \<Rightarrow> bool" where
  "queue_inv xs s \<longleftrightarrow>
     length (heap s) = Suc (nodes s) \<and> unlinked (mpc s) \<le> nodes s \<and>
     shaped xs (linked s) (heap s) \<and>
     q_head s = Some (qh s) \<and> q_tail s = Some (qt s) \<and>
     qh s \<le> qt s \<and> qt s \<le> linked s \<and> workers s \<noteq> []"

definition input_inv :: "cint list \<Rightarrow> system \<Rightarrow> bool" where
  "input_inv xs s \<longleftrightarrow>
     nodes s + holding (mpc s) \<le> length xs \<and>
     stdin s = drop (nodes s + holding (mpc s)) xs \<and>
     (holding (mpc s) = 1 \<longrightarrow> m_num s = xs ! nodes s) \<and>
     sint (pool_index s) = int (nodes s + claimed (mpc s)) \<and>
     nodes s + claimed (mpc s) \<le> 10000000 \<and>
     (mpc s = E_malloc \<longrightarrow> pool_nodes s (m_node s) = Some (m_num s)) \<and>
     (unlinked (mpc s) = 1 \<or> mpc s = E_swing \<longrightarrow> e_newNode s = nodes s) \<and>
     done_flag s = finishing (mpc s) \<and>
     (mpc s = P_done \<or> finishing (mpc s) \<longrightarrow> nodes s = length xs)"

definition etail_ok :: "system \<Rightarrow> bool" where
  "etail_ok s \<longleftrightarrow> e_tail s \<noteq> None \<and> the (e_tail s) \<le> linked s"

definition enqueue_inv :: "system \<Rightarrow> bool" where
  "enqueue_inv s =
     (case mpc s of
        E_next \<Rightarrow> etail_ok s
      | E_check \<Rightarrow>
          etail_ok s \<and>
          (e_next s = None \<or>
           e_next s = Some (Suc (the (e_tail s))) \<and> the (e_tail s) < linked s)
      | E_link \<Rightarrow> etail_ok s \<and> e_next s = None
      | E_help \<Rightarrow>
          etail_ok s \<and> e_next s = Some (Suc (the (e_tail s))) \<and> the (e_tail s) < linked s
      | E_swing \<Rightarrow> etail_ok s
      | _ \<Rightarrow> True)"

definition count_inv :: "cint list \<Rightarrow> system \<Rightarrow> bool" where
  "count_inv xs s \<longleftrightarrow>
     sint (q_size s) =
       int (nodes s) - int (uncounted (mpc s)) - int (qh s)
         + int (sum_list (map decrementing (workers s))) \<and>
     sint (q_size s) \<le> (if admitted (mpc s) then 255 else 256) \<and>
     sint (total_counter s) + int (sum_list (map credit (workers s))) =
       int (count_primes (take (qh s) xs))"

definition worker_inv :: "cint list \<Rightarrow> system \<Rightarrow> worker \<Rightarrow> bool" where
  "worker_inv xs s w =
     (case wpc w of
        W_size \<Rightarrow> done_flag s
      | D_tail \<Rightarrow> head_ok s w
      | D_next \<Rightarrow> head_ok s w \<and> tail_ok s w
      | D_check \<Rightarrow> head_ok s w \<and> tail_ok s w \<and> next_ok s w
      | D_help \<Rightarrow>
          head_ok s w \<and> tail_ok s w \<and> next_set w \<and> d_head w = d_tail w \<and>
          the (d_head w) < linked s
      | D_value \<Rightarrow>
          head_ok s w \<and> tail_ok s w \<and> next_set w \<and> the (d_head w) < the (d_tail w)
      | D_cas \<Rightarrow>
          head_ok s w \<and> tail_ok s w \<and> next_set w \<and> the (d_head w) < the (d_tail w) \<and>
          d_value w = xs ! the (d_head w)
      | W_exit \<Rightarrow> done_flag s \<and> qh s = nodes s
      | _ \<Rightarrow> True)"

definition live_inv :: "cint list \<Rightarrow> system \<Rightarrow> bool" where
  "live_inv xs s \<longleftrightarrow>
     queue_inv xs s \<and> input_inv xs s \<and> enqueue_inv s \<and> count_inv xs s \<and>
     (\<forall>w \<in> set (workers s). worker_inv xs s w)"

definition report_inv :: "cint list \<Rightarrow> system \<Rightarrow> bool" where
  "report_inv xs s \<longleftrightarrow>
     (\<forall>r. stdout s = Some r \<longrightarrow>
        sint r = int (count_primes xs) \<and> length xs \<le> 10000000) \<and>
     (mpc s \<noteq> P_free \<and> mpc s \<noteq> P_end \<longrightarrow> stdout s = None) \<and>
     (mpc s = P_free \<longrightarrow> stdout s = Some (total_counter s)) \<and>
     (mpc s \<in> {P_print, P_free, P_end} \<longrightarrow> (\<forall>w \<in> set (workers s). wpc w = W_exit)) \<and>
     (mpc s = P_end \<longrightarrow> done_flag s) \<and>
     sint (q_size s) \<le> 256"

definition invariant :: "cint list \<Rightarrow> system \<Rightarrow> bool" where
  "invariant xs s \<longleftrightarrow>
     report_inv xs s \<and> (mpc s \<noteq> P_end \<and> exited s = None \<longrightarrow> live_inv xs s)"

text \<open>The test \<open>head == tail\<close> and \<open>next == NULL\<close> of \<open>dequeue\<close>, on the memory as it is.\<close>

definition queue_empty :: "'a memory_scheme \<Rightarrow> bool" where
  "queue_empty m \<longleftrightarrow>
     q_head m = q_tail m \<and>
     (case node_at m (q_head m) of None \<Rightarrow> False | Some hn \<Rightarrow> node_next hn = None)"

text \<open>
  The memory after \<open>createQueue\<close> and the enqueues of \<open>vs\<close>, one after the other, with
  \<open>h\<close> values dequeued: the unconsumed values are \<open>drop h vs\<close>.
\<close>

definition is_queue :: "cint list \<Rightarrow> nat \<Rightarrow> 'a memory_scheme \<Rightarrow> bool" where
  "is_queue vs h m \<longleftrightarrow>
     length (heap m) = Suc (length vs) \<and> shaped vs (length vs) (heap m) \<and>
     q_head m = Some h \<and> q_tail m = Some (length vs) \<and> h \<le> length vs \<and>
     q_size m = of_nat (length vs) - of_nat h"

definition dequeue_post ::
  "'a memory_scheme \<Rightarrow> error + dequeue_result \<times> 'a memory_scheme \<Rightarrow> bool" where
  "dequeue_post m y \<longleftrightarrow>
     (\<forall>m'. y = Inr (Empty, m') \<longrightarrow> m' = m \<and> queue_empty m) \<and>
     (\<forall>v a m'. y = Inr (Dequeued v a, m') \<longrightarrow>
        a = q_head m \<and> q_size m' = q_size m - 1 \<and> heap m' = heap m \<and>
        heap_limit m' = heap_limit m \<and>
        (\<exists>hn nn. node_at m (q_head m) = Some hn \<and> q_head m' = node_next hn \<and>
           node_at m (node_next hn) = Some nn \<and> node_value nn = Some v))"

definition enqueue_post :: "'a memory_scheme \<Rightarrow> error + 'a memory_scheme \<Rightarrow> bool" where
  "enqueue_post m y \<longleftrightarrow>
     (\<forall>m'. y = Inr m' \<longrightarrow>
        q_size m' = q_size m + 1 \<and> length (heap m') = length (heap m) \<and>
        q_head m' = q_head m \<and> heap_limit m' = heap_limit m)"

text \<open>
  The values waiting in the queue, read off the memory: the walk from \<open>head\<close> along the
  \<open>next\<close> links, at most one step per node of the heap.
\<close>

fun chain_values :: "nat \<Rightarrow> 'a memory_scheme \<Rightarrow> nat option \<Rightarrow> cint list" where
  "chain_values 0 m p = []"
| "chain_values (Suc k) m p =
     (case node_at m p of
        None \<Rightarrow> []
      | Some n \<Rightarrow>
          (case node_at m (node_next n) of
             None \<Rightarrow> []
           | Some nn \<Rightarrow>
               (case node_value nn of
                  None \<Rightarrow> []
                | Some v \<Rightarrow> v # chain_values k m (node_next n))))"

definition unconsumed :: "'a memory_scheme \<Rightarrow> cint list" where
  "unconsumed m = chain_values (length (heap m)) m (q_head m)"

text \<open>Calls of \<open>enqueue\<close> and \<open>dequeue\<close> one after the other, by one thread.\<close>

datatype queue_op = Enq cint | Deq

fun run_ops ::
  "queue_op list \<Rightarrow> 'a memory_scheme \<Rightarrow> (error + dequeue_result list \<times> 'a memory_scheme) option"
  where
  "run_ops [] m = Some (Inr ([], m))"
| "run_ops (Enq v # ops) m =
     (case enqueue v m of
        None \<Rightarrow> None
      | Some (Inl e) \<Rightarrow> Some (Inl e)
      | Some (Inr m1) \<Rightarrow> run_ops ops m1)"
| "run_ops (Deq # ops) m =
     (case dequeue m of
        None \<Rightarrow> None
      | Some (Inl e) \<Rightarrow> Some (Inl e)
      | Some (Inr (r, m1)) \<Rightarrow>
          (case run_ops ops m1 of
             None \<Rightarrow> None
           | Some (Inl e) \<Rightarrow> Some (Inl e)
           | Some (Inr (rs, m2)) \<Rightarrow> Some (Inr (r # rs, m2))))"

text \<open>
  The first-in first-out queue the spec speaks of, as a list: what each dequeue of a
  sequence of operations returns (\<open>None\<close> for Empty) and what is left.
\<close>

fun fifo_spec :: "queue_op list \<Rightarrow> cint list \<Rightarrow> cint option list \<times> cint list" where
  "fifo_spec [] q = ([], q)"
| "fifo_spec (Enq v # ops) q = fifo_spec ops (q @ [v])"
| "fifo_spec (Deq # ops) [] = (None # fst (fifo_spec ops []), snd (fifo_spec ops []))"
| "fifo_spec (Deq # ops) (x # q) = (Some x # fst (fifo_spec ops q), snd (fifo_spec ops q))"

fun taken :: "dequeue_result \<Rightarrow> cint option" where
  "taken Empty = None"
| "taken (Dequeued v node) = Some v"

fun enqueues :: "queue_op list \<Rightarrow> nat" where
  "enqueues [] = 0"
| "enqueues (Enq v # ops) = Suc (enqueues ops)"
| "enqueues (Deq # ops) = enqueues ops"

section \<open>What the dequeues of a run take and return\<close>

text \<open>
  In the run the dequeues are the workers'. A dequeue takes its value off the queue by
  the compare-and-swap of \<open>head\<close> that succeeds (the step at \<open>D_cas\<close> with \<open>head\<close> still the
  one read), and returns it in the step at \<open>D_dec\<close> (the fetch-and-sub of \<open>size\<close>, then
  \<open>return value\<close>). \<open>took\<close> and \<open>gave\<close> read that off one step, \<open>taken_values\<close> and
  \<open>returned_values\<close> off a schedule, in the order of the steps; \<open>held\<close> is the value of a
  worker between the two.
\<close>

definition took :: "thread \<Rightarrow> system \<Rightarrow> cint list" where
  "took t s =
     (case t of
        Main \<Rightarrow> []
      | Worker i \<Rightarrow>
          if exited s = None \<and> i < length (workers s) \<and> wpc (workers s ! i) = D_cas \<and>
             q_head s = d_head (workers s ! i)
          then [d_value (workers s ! i)] else [])"

definition gave :: "thread \<Rightarrow> system \<Rightarrow> cint list" where
  "gave t s =
     (case t of
        Main \<Rightarrow> []
      | Worker i \<Rightarrow>
          if exited s = None \<and> i < length (workers s) \<and> wpc (workers s ! i) = D_dec
          then [d_value (workers s ! i)] else [])"

fun taken_values :: "thread list \<Rightarrow> system \<Rightarrow> cint list" where
  "taken_values [] s = []"
| "taken_values (t # ts) s = took t s @ taken_values ts (step t s)"

fun returned_values :: "thread list \<Rightarrow> system \<Rightarrow> cint list" where
  "returned_values [] s = []"
| "returned_values (t # ts) s = gave t s @ returned_values ts (step t s)"

definition held :: "worker \<Rightarrow> cint list" where
  "held w = (if wpc w = D_dec then [d_value w] else [])"

definition live :: "system \<Rightarrow> bool" where
  "live s \<longleftrightarrow> exited s = None \<and> mpc s \<noteq> P_end"

section \<open>The return of Empty\<close>

text \<open>
  In the run a call of \<open>dequeue\<close> is a worker's steps from \<open>D_head\<close> on. \<open>returns_empty\<close> is
  the test that sends the step at \<open>D_check\<close> to \<open>return -1\<close>. \<open>searching\<close> are the places of a
  call that has not taken a node. \<open>empty_call i sched s\<close>: from \<open>s\<close>, along \<open>sched\<close>, worker
  \<open>i\<close> stays inside one call that has taken nothing, and the last step of \<open>sched\<close> is its
  return of Empty. \<open>keeps i sched s\<close>: no step of worker \<open>i\<close> in \<open>sched\<close> changes \<open>head\<close>,
  \<open>size\<close> or a node.
\<close>

definition returns_empty :: "nat \<Rightarrow> system \<Rightarrow> bool" where
  "returns_empty i s \<longleftrightarrow>
     wpc (workers s ! i) = D_check \<and> d_head (workers s ! i) = q_head s \<and>
     d_head (workers s ! i) = d_tail (workers s ! i) \<and> d_next (workers s ! i) = None"

fun searching :: "worker_pc \<Rightarrow> bool" where
  "searching D_head = True" | "searching D_tail = True" | "searching D_next = True"
| "searching D_check = True" | "searching D_help = True" | "searching D_value = True"
| "searching D_cas = True" | "searching _ = False"

fun empty_call :: "nat \<Rightarrow> thread list \<Rightarrow> system \<Rightarrow> bool" where
  "empty_call i [] s = False"
| "empty_call i (t # ts) s =
     (exited s = None \<and> i < length (workers s) \<and> searching (wpc (workers s ! i)) \<and>
      (if ts = [] then t = Worker i \<and> returns_empty i s else empty_call i ts (step t s)))"

fun keeps :: "nat \<Rightarrow> thread list \<Rightarrow> system \<Rightarrow> bool" where
  "keeps i [] s = True"
| "keeps i (t # ts) s =
     ((t = Worker i \<longrightarrow>
         q_head (step t s) = q_head s \<and> q_size (step t s) = q_size s \<and>
         heap (step t s) = heap s) \<and>
      keeps i ts (step t s))"

section \<open>The workers after \<open>done\<close>\<close>

text \<open>
  \<open>frozen\<close>: \<open>done\<close> is set and \<open>size\<close> is not positive. \<open>remaining s w\<close> bounds the steps a
  worker still takes from there: it finishes the \<open>dequeue\<close> it is in, which fails if it
  started from an older \<open>head\<close>, polls once more, finds the queue empty, sleeps, and
  leaves the loop.
\<close>

definition frozen :: "cint list \<Rightarrow> system \<Rightarrow> bool" where
  "frozen xs s \<longleftrightarrow>
     invariant xs s \<and> exited s = None \<and> mpc s \<noteq> P_end \<and> done_flag s \<and> sint (q_size s) \<le> 0"

definition remaining :: "system \<Rightarrow> worker \<Rightarrow> nat" where
  "remaining s w =
     (case wpc w of
        W_exit \<Rightarrow> 0 | W_size \<Rightarrow> 1 | W_done \<Rightarrow> 2 | W_sleep \<Rightarrow> 3 | W_add \<Rightarrow> 3 | W_num \<Rightarrow> 4
      | D_dec \<Rightarrow> 5
      | D_check \<Rightarrow> if d_head w = q_head s then 5 else 9
      | D_next \<Rightarrow> if d_head w = q_head s then 6 else 10
      | D_tail \<Rightarrow> if d_head w = q_head s then 7 else 11
      | D_head \<Rightarrow> 8 | D_help \<Rightarrow> 9 | D_cas \<Rightarrow> 9 | D_value \<Rightarrow> 10)"

section \<open>A schedule that reports\<close>



section \<open>Word arithmetic\<close>

lemma sint_range32: "- (2 ^ 31) \<le> sint (a :: cint) \<and> sint a < 2 ^ 31"
  using sint_ge [of a] sint_lt [of a] by simp

lemma sint_add32:
  "- (2 ^ 31) \<le> sint a + sint b \<Longrightarrow> sint a + sint b < 2 ^ 31 \<Longrightarrow>
   sint (a + b :: cint) = sint a + sint b"
  by (simp add: sint_word_ariths signed_take_bit_int_eq_self)


lemma sint_succ32: "sint (a :: cint) < 2 ^ 31 - 1 \<Longrightarrow> sint (a + 1) = sint a + 1"
  using sint_ge [of a] by (simp add: sint_word_ariths signed_take_bit_int_eq_self)

lemma sint_pred32: "- (2 ^ 31) < sint (a :: cint) \<Longrightarrow> sint (a - 1) = sint a - 1"
  using sint_lt [of a] by (simp add: sint_word_ariths signed_take_bit_int_eq_self)

lemma sint_pool_size: "sint MEMORY_POOL_SIZE = 10000000"
  by (simp add: MEMORY_POOL_SIZE_def)

section \<open>The arena\<close>

lemma allocateNode_fail:
  "(allocateNode m = Inl e) = (e = ArenaExhausted \<and> sint MEMORY_POOL_SIZE \<le> sint (pool_index m))"
  by (auto simp: allocateNode_def Let_def)

lemma allocateNode_ok:
  "(allocateNode m = Inr (slot, m1)) =
     (sint (pool_index m) < sint MEMORY_POOL_SIZE \<and> slot = pool_index m \<and>
      m1 = m\<lparr>pool_index := pool_index m + 1\<rparr>)"
  by (auto simp: allocateNode_def Let_def)

lemma allocateNode_index:
  assumes "allocateNode m = Inr (slot, m1)"
  shows "sint (pool_index m1) = sint (pool_index m) + 1"
proof -
  have "sint (pool_index m) < 10000000" and "m1 = m\<lparr>pool_index := pool_index m + 1\<rparr>"
    using assms by (simp_all add: allocateNode_ok sint_pool_size)
  then show ?thesis by (simp add: sint_succ32)
qed

lemma allocate_many_slots:
  "allocate_many k m = Inr (slots, m1) \<Longrightarrow>
     length slots = k \<and> sint (pool_index m1) = sint (pool_index m) + int k \<and>
     (\<forall>j < k. sint (slots ! j) = sint (pool_index m) + int j) \<and>
     (0 < k \<longrightarrow> sint (pool_index m1) \<le> sint MEMORY_POOL_SIZE)"
proof (induction k arbitrary: m slots)
  case 0
  then show ?case by simp
next
  case (Suc k)
  from Suc.prems obtain slot m' slots' where
    a: "allocateNode m = Inr (slot, m')" and b: "allocate_many k m' = Inr (slots', m1)"
    and c: "slots = slot # slots'"
    by (auto split: sum.splits prod.splits)
  have i: "sint (pool_index m') = sint (pool_index m) + 1" using a by (rule allocateNode_index)
  have s: "slot = pool_index m" and f: "sint (pool_index m) < sint MEMORY_POOL_SIZE"
    using a by (simp_all add: allocateNode_ok)
  from Suc.IH [OF b] have ih: "length slots' = k"
    "sint (pool_index m1) = sint (pool_index m') + int k"
    "\<forall>j < k. sint (slots' ! j) = sint (pool_index m') + int j"
    "0 < k \<longrightarrow> sint (pool_index m1) \<le> sint MEMORY_POOL_SIZE" by blast+
  have "sint (pool_index m1) \<le> sint MEMORY_POOL_SIZE"
    using ih(2,4) i f by (cases "k = 0") simp_all
  then show ?case using ih i s c by (auto simp: nth_Cons split: nat.splits)
qed

lemma allocate_many_distinct:
  assumes "allocate_many k m = Inr (slots, m1)"
  shows "distinct slots"
proof -
  from allocate_many_slots [OF assms] have l: "length slots = k"
    and n: "\<forall>j < k. sint (slots ! j) = sint (pool_index m) + int j" by simp_all
  show ?thesis
    unfolding distinct_conv_nth
  proof (intro allI impI)
    fix i j assume "i < length slots" "j < length slots" "i \<noteq> j"
    then have "sint (slots ! i) \<noteq> sint (slots ! j)" using l n by simp
    then show "slots ! i \<noteq> slots ! j" by auto
  qed
qed

text \<open>
  Claim C6. \<open>allocateNode\<close> fails, with \<open>ArenaExhausted\<close> and nothing else, exactly when
  the index it reads is at or above \<open>MEMORY_POOL_SIZE\<close>. Otherwise it returns the slot
  at that index and leaves the index one higher (as a signed number: no wrap-around), the
  rest of the memory as it was. In a run of successful allocations, however long, the
  slots returned are pairwise distinct and the index ends no lower than it started.
\<close>

theorem allocateNode_contract:
  "((\<exists>e. allocateNode m = Inl e) \<longleftrightarrow> sint MEMORY_POOL_SIZE \<le> sint (pool_index m)) \<and>
   (\<forall>e. allocateNode m = Inl e \<longrightarrow> e = ArenaExhausted) \<and>
   (sint (pool_index m) < sint MEMORY_POOL_SIZE \<longrightarrow>
      allocateNode m = Inr (pool_index m, m\<lparr>pool_index := pool_index m + 1\<rparr>) \<and>
      sint (pool_index m + 1) = sint (pool_index m) + 1) \<and>
   (\<forall>k slots m1. allocate_many k m = Inr (slots, m1) \<longrightarrow>
      distinct slots \<and> set slots \<subseteq> {a. sint (pool_index m) \<le> sint a \<and> sint a < sint MEMORY_POOL_SIZE} \<and>
      sint (pool_index m1) = sint (pool_index m) + int k)"
proof (intro conjI allI impI)
  show "(\<exists>e. allocateNode m = Inl e) \<longleftrightarrow> sint MEMORY_POOL_SIZE \<le> sint (pool_index m)"
    by (simp add: allocateNode_fail)
next
  fix e assume "allocateNode m = Inl e"
  then show "e = ArenaExhausted" by (simp add: allocateNode_fail)
next
  assume "sint (pool_index m) < sint MEMORY_POOL_SIZE"
  then show "allocateNode m = Inr (pool_index m, m\<lparr>pool_index := pool_index m + 1\<rparr>)"
    by (simp add: allocateNode_ok)
next
  assume "sint (pool_index m) < sint MEMORY_POOL_SIZE"
  then show "sint (pool_index m + 1) = sint (pool_index m) + 1"
    by (simp add: sint_pool_size sint_succ32)
next
  fix k slots m1 assume a: "allocate_many k m = Inr (slots, m1)"
  then show "distinct slots" by (rule allocate_many_distinct)
  from allocate_many_slots [OF a] show "sint (pool_index m1) = sint (pool_index m) + int k"
    by simp
  show "set slots \<subseteq> {a. sint (pool_index m) \<le> sint a \<and> sint a < sint MEMORY_POOL_SIZE}"
  proof
    fix x assume "x \<in> set slots"
    then obtain j where j: "j < length slots" "slots ! j = x" by (auto simp: in_set_conv_nth)
    from allocate_many_slots [OF a] j have x: "sint x = sint (pool_index m) + int j"
      and l: "length slots = k" and e: "sint (pool_index m1) = sint (pool_index m) + int k"
      by blast+
    have "sint (pool_index m1) \<le> sint MEMORY_POOL_SIZE"
      using allocate_many_slots [OF a] j(1) l by simp
    then show "x \<in> {a. sint (pool_index m) \<le> sint a \<and> sint a < sint MEMORY_POOL_SIZE}"
      using x e l j(1) by simp
  qed
qed

theorem allocateNode_contract_witness:
  "allocate_many 3 (createMemoryPool (empty_memory 0)) =
     Inr ([0, 1, 2], (empty_memory 0)\<lparr>pool_index := 3\<rparr>) \<and>
   distinct [0, 1, 2 :: cint] \<and>
   allocateNode ((empty_memory 0)\<lparr>pool_index := 2\<rparr>) =
     Inr (2, (empty_memory 0)\<lparr>pool_index := 3\<rparr>) \<and>
   allocateNode ((empty_memory 0)\<lparr>pool_index := 10000000\<rparr>) = Inl ArenaExhausted"
  using allocateNode_contract [of "createMemoryPool (empty_memory 0)"]
    allocateNode_contract [of "(empty_memory 0)\<lparr>pool_index := 2\<rparr>"]
    allocateNode_contract [of "(empty_memory 0)\<lparr>pool_index := 10000000\<rparr>"]
  by (simp add: createMemoryPool_def empty_memory_def allocateNode_def MEMORY_POOL_SIZE_def
      numeral_3_eq_3)

section \<open>The primality test: what it computes\<close>

lemma word_of_int_0_small:
  assumes "0 \<le> k" "k < 2 ^ 31"
  shows "(word_of_int k :: cint) = 0 \<longleftrightarrow> k = 0"
proof
  assume "(word_of_int k :: cint) = 0"
  then have d: "(2 ^ 32 :: int) dvd k" by (simp add: word_of_int_eq_0_iff)
  show "k = 0"
  proof (rule ccontr)
    assume "k \<noteq> 0"
    then have "0 < k" using assms by simp
    then have "(2 ^ 32 :: int) \<le> k" using d by (rule_tac zdvd_imp_le)
    then show False using assms by simp
  qed
qed simp

lemma c_rem_eq_0:
  assumes "0 < sint a" "0 < sint b"
  shows "c_rem a b = 0 \<longleftrightarrow> sint b dvd sint a"
proof -
  have s: "sint a smod sint b = sint a mod sint b"
    using assms by (simp add: smod_int_alt_def sgn_if)
  have r: "0 \<le> sint a mod sint b" "sint a mod sint b < sint b"
    using assms by simp_all
  have "sint a mod sint b < 2 ^ 31" using r sint_range32 [of b] by linarith
  then have "(word_of_int (sint a mod sint b) :: cint) = 0 \<longleftrightarrow> sint a mod sint b = 0"
    using r(1) by (rule_tac word_of_int_0_small)
  then show ?thesis by (simp add: c_rem_def s dvd_eq_mod_eq_0)
qed

lemma isPrime_candidate:
  "isPrime n = (if sint n \<le> 1 then Some False else if sint n \<le> 3 then Some True
      else if candidate n then isPrime_loop n 5 else Some False)"
proof -
  have "3 < sint n \<Longrightarrow> c_rem n 2 = 0 \<longleftrightarrow> 2 dvd sint n"
    using c_rem_eq_0 [of n 2] by simp
  moreover have "3 < sint n \<Longrightarrow> c_rem n 3 = 0 \<longleftrightarrow> 3 dvd sint n"
    using c_rem_eq_0 [of n 3] by simp
  ultimately show ?thesis by (auto simp: isPrime_def candidate_def)
qed

lemma candidate_mod6: "candidate n \<Longrightarrow> sint n mod 6 = 1 \<or> sint n mod 6 = 5"
  unfolding candidate_def by presburger

lemma loop_inv_5: "candidate n \<Longrightarrow> loop_inv n 5"
proof -
  assume "candidate n"
  then have "5 \<le> sint n" unfolding candidate_def by presburger
  then show ?thesis by (simp add: loop_inv_def)
qed

lemma loop_unfold:
  assumes c: "candidate n" and i: "loop_inv n i"
  shows "isPrime_loop n i =
     (if sint (i * i) \<le> sint n then
        (if sint i dvd sint n \<or> (sint i + 2) dvd sint n then Some False
         else isPrime_loop n (i + 6))
      else Some True)"
    and "\<not> sint i dvd sint n \<Longrightarrow> \<not> (sint i + 2) dvd sint n \<Longrightarrow>
         loop_inv n (i + 6) \<and> sint (i + 6) = sint i + 6"
proof -
  have n: "3 < sint n" using c by (simp add: candidate_def)
  have i5: "5 \<le> sint i" "sint i \<le> sint n" "sint i mod 6 = 5" using i by (simp_all add: loop_inv_def)
  have i0: "i \<noteq> 0" using i5 by auto
  have r1: "c_rem n i = 0 \<longleftrightarrow> sint i dvd sint n" using c_rem_eq_0 [of n i] n i5 by simp
  have m: "sint n mod 6 = 1 \<or> sint n mod 6 = 5" using c by (rule candidate_mod6)
  have up: "sint n < 2 ^ 31" using sint_range32 [of n] by simp
  {
    assume nd: "\<not> sint i dvd sint n"
    then have "sint i \<noteq> sint n" by auto
    then have "sint i + 2 \<le> sint n" using i5 m by presburger
    then have s2: "sint (i + 2) = sint i + 2" using i5 up by (simp add: sint_add32)
    then have "i + 2 \<noteq> 0" using i5 by auto
    moreover have "c_rem n (i + 2) = 0 \<longleftrightarrow> (sint i + 2) dvd sint n"
      using c_rem_eq_0 [of n "i + 2"] n i5 s2 by simp
    ultimately have "i + 2 \<noteq> 0 \<and> (c_rem n (i + 2) = 0 \<longleftrightarrow> (sint i + 2) dvd sint n)
       \<and> sint i + 2 \<le> sint n" using \<open>sint i + 2 \<le> sint n\<close> by simp
  } note second = this
  show "isPrime_loop n i =
     (if sint (i * i) \<le> sint n then
        (if sint i dvd sint n \<or> (sint i + 2) dvd sint n then Some False
         else isPrime_loop n (i + 6))
      else Some True)"
    apply (subst isPrime_loop.simps)
    using i0 r1 second by auto
  assume nd: "\<not> sint i dvd sint n" "\<not> (sint i + 2) dvd sint n"
  have "sint i + 2 \<le> sint n" using second nd by simp
  moreover have "sint i + 2 \<noteq> sint n" using nd(2) by auto
  ultimately have "sint i + 6 \<le> sint n" using i5 m by presburger
  then have "sint (i + 6) = sint i + 6" using i5 up by (simp add: sint_add32)
  moreover have "(sint i + 6) mod 6 = 5" using i5(3) by presburger
  ultimately show "loop_inv n (i + 6) \<and> sint (i + 6) = sint i + 6"
    using \<open>sint i + 6 \<le> sint n\<close> i5 by (simp add: loop_inv_def)
qed

lemma loop_total:
  assumes c: "candidate n"
  shows "loop_inv n i \<Longrightarrow> isPrime_loop n i \<noteq> None"
proof (induction "nat (sint n - sint i)" arbitrary: i rule: less_induct)
  case less
  note u = loop_unfold [OF c less.prems]
  show ?case
  proof (cases "sint (i * i) \<le> sint n \<and> \<not> sint i dvd sint n \<and> \<not> (sint i + 2) dvd sint n")
    case True
    then have s: "loop_inv n (i + 6)" "sint (i + 6) = sint i + 6" using u(2) by simp_all
    have "nat (sint n - sint (i + 6)) < nat (sint n - sint i)"
      using s less.prems by (simp add: loop_inv_def)
    then have "isPrime_loop n (i + 6) \<noteq> None" using s(1) by (rule less.hyps)
    then show ?thesis using u(1) True by simp
  next
    case False
    then show ?thesis using u(1) by auto
  qed
qed

lemma isPrime_total: "isPrime n \<noteq> None"
proof (cases "candidate n")
  case True
  then have "isPrime_loop n 5 \<noteq> None" by (simp add: loop_total loop_inv_5)
  with True show ?thesis by (auto simp: isPrime_candidate)
next
  case False
  then show ?thesis by (auto simp: isPrime_candidate)
qed

lemma loop_INT_MAX:
  assumes n: "n = 2147483647"
  shows "loop_inv n i \<Longrightarrow> isPrime_loop n i = Some False"
proof (induction "nat (sint n - sint i)" arbitrary: i rule: less_induct)
  case less
  have c: "candidate n" by (simp add: n candidate_def)
  note u = loop_unfold [OF c less.prems]
  have g: "sint (i * i) \<le> sint n" using sint_range32 [of "i * i"] by (simp add: n)
  show ?case
  proof (cases "\<not> sint i dvd sint n \<and> \<not> (sint i + 2) dvd sint n")
    case True
    then have s: "loop_inv n (i + 6)" "sint (i + 6) = sint i + 6" using u(2) by simp_all
    have "nat (sint n - sint (i + 6)) < nat (sint n - sint i)"
      using s less.prems by (simp add: loop_inv_def)
    then have "isPrime_loop n (i + 6) = Some False" using s(1) by (rule less.hyps)
    then show ?thesis using u(1) True g by simp
  next
    case False
    then show ?thesis using u(1) g by auto
  qed
qed

text \<open>
  Claim C3, at the input \<open>2147483647\<close> (\<open>INT_MAX\<close>, a prime). The product \<open>i * i\<close> passes
  \<open>INT_MAX\<close> at \<open>i = 46343\<close>; with the wrap-around no product is above \<open>n = INT_MAX\<close>, so the
  loop goes on until \<open>i + 2 = n\<close> and the test answers false.
\<close>

theorem isPrime_INT_MAX: "isPrime 2147483647 = Some False"
proof -
  have c: "candidate 2147483647" by (simp add: candidate_def)
  have "isPrime_loop 2147483647 5 = Some False"
    using loop_INT_MAX [of 2147483647 5] loop_inv_5 [OF c] by simp
  then show ?thesis using c by (simp add: isPrime_candidate)
qed












lemma isPrime_1_to_10:
  "map isPrime [1, 2, 3, 4, 5, 6, 7, 8, 9, 10] =
     map Some [False, True, True, False, True, False, True, False, False, False]"
  by (simp add: isPrime_def isPrime_loop.simps c_rem_def)

lemma isPrime_minus_1: "isPrime (- 1) = Some False"
  by (simp add: isPrime_def)

section \<open>The invariant holds in every run\<close>

lemma shaped_nth: "shaped xs l hp \<Longrightarrow> a < length hp \<Longrightarrow> hp ! a = cell xs l a"
  unfolding shaped_def by simp

lemma shaped_link:
  assumes "shaped xs l hp" "l < length hp" "hp ! l = Some n"
  shows "shaped xs (Suc l) (hp[l := Some (n\<lparr>node_next := Some (Suc l)\<rparr>)])"
  using assms unfolding shaped_def
  by (auto simp: nth_list_update cell_def)

lemma shaped_grow:
  assumes "shaped xs l hp" "length hp = Suc n" "l \<le> n"
  shows "shaped xs l (hp @ [Some \<lparr>node_value = Some (xs ! n), node_next = None\<rparr>])"
  using assms unfolding shaped_def
  by (auto simp: nth_append cell_def less_Suc_eq)

lemma node_at_cell:
  assumes "queue_inv xs s" "a \<le> nodes s"
  shows "node_at s (Some a) = cell xs (linked s) a"
  using assms shaped_nth [of xs "linked s" "heap s" a]
  by (simp add: queue_inv_def node_at_def)

lemma worker_inv_mono:
  assumes "worker_inv xs s w" "qh s \<le> qh s'" "qt s \<le> qt s'" "linked s \<le> linked s'"
    "done_flag s \<Longrightarrow> done_flag s'" "done_flag s \<Longrightarrow> qh s = nodes s \<Longrightarrow> qh s' = nodes s'"
  shows "worker_inv xs s' w"
  using assms unfolding worker_inv_def head_ok_def tail_ok_def next_ok_def
  by (cases "wpc w") auto

lemma invariant_start: "invariant xs (start limit numCPU xs)"
  by (auto simp: invariant_def start_def boot_def createQueue_def malloc_node_def
      createMemoryPool_def report_inv_def live_inv_def queue_inv_def input_inv_def
      enqueue_inv_def count_inv_def worker_inv_def new_worker_def nodes_def linked_def
      qh_def qt_def cell_def credit_def decrementing_def count_primes_def shaped_def
      sum_list_replicate)

lemma nodes_frame [simp]:
  "nodes (s\<lparr>q_head := a1\<rparr>) = nodes s" "nodes (s\<lparr>q_tail := a2\<rparr>) = nodes s"
  "nodes (s\<lparr>q_size := a3\<rparr>) = nodes s" "nodes (s\<lparr>pool_index := a4\<rparr>) = nodes s"
  "nodes (s\<lparr>pool_nodes := a5\<rparr>) = nodes s" "nodes (s\<lparr>total_counter := a6\<rparr>) = nodes s"
  "nodes (s\<lparr>done_flag := a7\<rparr>) = nodes s" "nodes (s\<lparr>stdin := a8\<rparr>) = nodes s"
  "nodes (s\<lparr>stdout := a9\<rparr>) = nodes s" "nodes (s\<lparr>exited := b1\<rparr>) = nodes s"
  "nodes (s\<lparr>mpc := b2\<rparr>) = nodes s" "nodes (s\<lparr>m_num := b3\<rparr>) = nodes s"
  "nodes (s\<lparr>m_total_numbers := b4\<rparr>) = nodes s" "nodes (s\<lparr>m_node := b5\<rparr>) = nodes s"
  "nodes (s\<lparr>e_value := b6\<rparr>) = nodes s" "nodes (s\<lparr>e_newNode := b7\<rparr>) = nodes s"
  "nodes (s\<lparr>e_tail := b8\<rparr>) = nodes s" "nodes (s\<lparr>e_next := b9\<rparr>) = nodes s"
  "nodes (s\<lparr>workers := c1\<rparr>) = nodes s"
  by (simp_all add: nodes_def)

lemma qh_frame [simp]:
  "qh (s\<lparr>q_head := a1\<rparr>) = the a1" "qh (s\<lparr>q_tail := a2\<rparr>) = qh s"
  "qh (s\<lparr>q_size := a3\<rparr>) = qh s" "qh (s\<lparr>pool_index := a4\<rparr>) = qh s"
  "qh (s\<lparr>pool_nodes := a5\<rparr>) = qh s" "qh (s\<lparr>total_counter := a6\<rparr>) = qh s"
  "qh (s\<lparr>done_flag := a7\<rparr>) = qh s" "qh (s\<lparr>stdin := a8\<rparr>) = qh s"
  "qh (s\<lparr>stdout := a9\<rparr>) = qh s" "qh (s\<lparr>exited := b1\<rparr>) = qh s"
  "qh (s\<lparr>mpc := b2\<rparr>) = qh s" "qh (s\<lparr>m_num := b3\<rparr>) = qh s"
  "qh (s\<lparr>m_total_numbers := b4\<rparr>) = qh s" "qh (s\<lparr>m_node := b5\<rparr>) = qh s"
  "qh (s\<lparr>e_value := b6\<rparr>) = qh s" "qh (s\<lparr>e_newNode := b7\<rparr>) = qh s"
  "qh (s\<lparr>e_tail := b8\<rparr>) = qh s" "qh (s\<lparr>e_next := b9\<rparr>) = qh s"
  "qh (s\<lparr>workers := c1\<rparr>) = qh s" "qh (s\<lparr>heap := c2\<rparr>) = qh s"
  by (simp_all add: qh_def)

lemma qt_frame [simp]:
  "qt (s\<lparr>q_head := a1\<rparr>) = qt s" "qt (s\<lparr>q_tail := a2\<rparr>) = the a2"
  "qt (s\<lparr>q_size := a3\<rparr>) = qt s" "qt (s\<lparr>pool_index := a4\<rparr>) = qt s"
  "qt (s\<lparr>pool_nodes := a5\<rparr>) = qt s" "qt (s\<lparr>total_counter := a6\<rparr>) = qt s"
  "qt (s\<lparr>done_flag := a7\<rparr>) = qt s" "qt (s\<lparr>stdin := a8\<rparr>) = qt s"
  "qt (s\<lparr>stdout := a9\<rparr>) = qt s" "qt (s\<lparr>exited := b1\<rparr>) = qt s"
  "qt (s\<lparr>mpc := b2\<rparr>) = qt s" "qt (s\<lparr>m_num := b3\<rparr>) = qt s"
  "qt (s\<lparr>m_total_numbers := b4\<rparr>) = qt s" "qt (s\<lparr>m_node := b5\<rparr>) = qt s"
  "qt (s\<lparr>e_value := b6\<rparr>) = qt s" "qt (s\<lparr>e_newNode := b7\<rparr>) = qt s"
  "qt (s\<lparr>e_tail := b8\<rparr>) = qt s" "qt (s\<lparr>e_next := b9\<rparr>) = qt s"
  "qt (s\<lparr>workers := c1\<rparr>) = qt s" "qt (s\<lparr>heap := c2\<rparr>) = qt s"
  by (simp_all add: qt_def)

lemmas inv_defs = queue_inv_def input_inv_def enqueue_inv_def count_inv_def report_inv_def
  linked_def etail_ok_def

lemma workers_mono:
  assumes "\<forall>w \<in> set (workers s). worker_inv xs s w" "workers s' = workers s"
    "qh s \<le> qh s'" "qt s \<le> qt s'" "linked s \<le> linked s'"
    "done_flag s \<Longrightarrow> done_flag s'"
    "done_flag s \<Longrightarrow> qh s = nodes s \<Longrightarrow> qh s' = nodes s'"
  shows "\<forall>w \<in> set (workers s'). worker_inv xs s' w"
proof
  fix w assume "w \<in> set (workers s')"
  then have w: "worker_inv xs s w" using assms(1,2) by simp
  show "worker_inv xs s' w"
    by (rule worker_inv_mono [OF w assms(3-7)])
qed

lemma main_P_scan:
  assumes "invariant xs s" "exited s = None" "mpc s = P_scan"
  shows "invariant xs (main_step s)"
proof -
  have L: "queue_inv xs s" "input_inv xs s" "enqueue_inv s" "count_inv xs s"
    "\<forall>w \<in> set (workers s). worker_inv xs s w" and R: "report_inv xs s"
    using assms by (simp_all add: invariant_def live_inv_def)
  show ?thesis
  proof (cases "stdin s")
    case Nil
    then have st: "main_step s = s\<lparr>mpc := P_done\<rparr>" using assms(3) by (simp add: main_step_def)
    have n: "nodes s = length xs" using L(2) Nil assms(3) by (simp add: input_inv_def)
    have W: "\<forall>w \<in> set (workers (main_step s)). worker_inv xs (main_step s) w"
      by (rule workers_mono [OF L(5)]) (simp_all add: st inv_defs assms(3))
    show ?thesis
      unfolding invariant_def live_inv_def
      using L(1-4) R W n assms(3) by (simp add: st inv_defs)
  next
    case (Cons x rest)
    then have st: "main_step s = s\<lparr>m_num := x, stdin := rest, mpc := P_wait\<rparr>"
      using assms(3) by (simp add: main_step_def)
    have d: "drop (nodes s) xs = x # rest" using L(2) Cons assms(3) by (simp add: input_inv_def)
    then have n: "nodes s < length xs" "xs ! nodes s = x" "drop (Suc (nodes s)) xs = rest"
      by (metis drop_eq_Nil leI list.distinct(1), metis nth_via_drop, metis drop_Suc list.sel(3) tl_drop)
    have W: "\<forall>w \<in> set (workers (main_step s)). worker_inv xs (main_step s) w"
      by (rule workers_mono [OF L(5)]) (simp_all add: st inv_defs assms(3))
    show ?thesis
      unfolding invariant_def live_inv_def
      using L(1-4) R W n assms(3) by (simp add: st inv_defs)
  qed
qed

lemma invariant_live:
  assumes "invariant xs s" "exited s = None" "mpc s \<noteq> P_end"
  shows "queue_inv xs s" "input_inv xs s" "enqueue_inv s" "count_inv xs s"
    "\<forall>w \<in> set (workers s). worker_inv xs s w" "report_inv xs s"
  using assms by (simp_all add: invariant_def live_inv_def)

lemma invariantI:
  assumes "report_inv xs s" "queue_inv xs s" "input_inv xs s" "enqueue_inv s" "count_inv xs s"
    "\<forall>w \<in> set (workers s). worker_inv xs s w"
  shows "invariant xs s"
  using assms by (simp add: invariant_def live_inv_def)

lemma invariant_exit:
  assumes "invariant xs s"
  shows "invariant xs (s\<lparr>exited := Some e\<rparr>)"
  using assms by (simp add: invariant_def report_inv_def)

lemma main_P_wait:
  assumes "invariant xs s" "exited s = None" "mpc s = P_wait"
  shows "invariant xs (main_step s)"
proof (cases "sint MAX_QUEUE_SIZE \<le> sint (q_size s)")
  case True
  then show ?thesis using assms by (simp add: main_step_def)
next
  case False
  then have st: "main_step s = s\<lparr>mpc := P_alloc\<rparr>" using assms(3) by (simp add: main_step_def)
  have b: "sint (q_size s) \<le> 255" using False by (simp add: MAX_QUEUE_SIZE_def)
  have ne: "mpc s \<noteq> P_end" using assms(3) by simp
  note L = invariant_live [OF assms(1,2) ne]
  have W: "\<forall>w \<in> set (workers (main_step s)). worker_inv xs (main_step s) w"
    by (rule workers_mono [OF L(5)]) (simp_all add: st inv_defs assms(3))
  show ?thesis
    by (rule invariantI [OF _ _ _ _ _ W]) (use L assms(3) b in \<open>simp_all add: st inv_defs\<close>)
qed

lemma main_P_alloc:
  assumes "invariant xs s" "exited s = None" "mpc s = P_alloc"
  shows "invariant xs (main_step s)"
proof (cases "sint MEMORY_POOL_SIZE \<le> sint (pool_index s)")
  case True
  then have "main_step s = s\<lparr>exited := Some ArenaExhausted\<rparr>"
    using assms(3) by (simp add: main_step_def allocateNode_def Let_def)
  then show ?thesis using assms(1) by (simp add: invariant_exit)
next
  case False
  then have st: "main_step s = s\<lparr>pool_index := pool_index s + 1, m_node := pool_index s, mpc := P_store\<rparr>"
    using assms(3) by (simp add: main_step_def allocateNode_def Let_def)
  have ne: "mpc s \<noteq> P_end" using assms(3) by simp
  note L = invariant_live [OF assms(1,2) ne]
  have i: "sint (pool_index s) < 10000000" using False by (simp add: sint_pool_size)
  then have i1: "sint (pool_index s + 1) = sint (pool_index s) + 1" by (simp add: sint_succ32)
  have W: "\<forall>w \<in> set (workers (main_step s)). worker_inv xs (main_step s) w"
    by (rule workers_mono [OF L(5)]) (simp_all add: st inv_defs assms(3))
  show ?thesis
    by (rule invariantI [OF _ _ _ _ _ W]) (use L assms(3) i i1 in \<open>simp_all add: st inv_defs\<close>)
qed

lemma main_P_store:
  assumes "invariant xs s" "exited s = None" "mpc s = P_store"
  shows "invariant xs (main_step s)"
proof -
  have st: "main_step s = s\<lparr>pool_nodes := (pool_nodes s)(m_node s := Some (m_num s)), mpc := E_malloc\<rparr>"
    using assms(3) by (simp add: main_step_def)
  have ne: "mpc s \<noteq> P_end" using assms(3) by simp
  note L = invariant_live [OF assms(1,2) ne]
  have W: "\<forall>w \<in> set (workers (main_step s)). worker_inv xs (main_step s) w"
    by (rule workers_mono [OF L(5)]) (simp_all add: st inv_defs assms(3))
  show ?thesis
    by (rule invariantI [OF _ _ _ _ _ W]) (use L assms(3) in \<open>simp_all add: st inv_defs\<close>)
qed

lemma main_E_malloc:
  assumes "invariant xs s" "exited s = None" "mpc s = E_malloc"
  shows "invariant xs (main_step s)"
proof (cases "length (heap s) < heap_limit s")
  case False
  have ne: "mpc s \<noteq> P_end" using assms(3) by simp
  note L = invariant_live [OF assms(1,2) ne]
  have "main_step s = s\<lparr>exited := Some OutOfMemory\<rparr>"
    using assms(3) False L(2) by (simp add: main_step_def malloc_node_def input_inv_def)
  then show ?thesis using assms(1) by (simp add: invariant_exit)
next
  case True
  have ne: "mpc s \<noteq> P_end" using assms(3) by simp
  note L = invariant_live [OF assms(1,2) ne]
  have len: "length (heap s) = Suc (nodes s)" using L(1) by (simp add: queue_inv_def)
  have v: "pool_nodes s (m_node s) = Some (xs ! nodes s)"
    using L(2) assms(3) by (simp add: input_inv_def)
  define hp where "hp = (heap s @ [Some \<lparr>node_value = None, node_next = None\<rparr>])
     [Suc (nodes s) := Some \<lparr>node_value = Some (xs ! nodes s), node_next = None\<rparr>]"
  have st: "main_step s =
     s\<lparr>heap := hp, e_value := xs ! nodes s, e_newNode := Suc (nodes s), mpc := E_tail\<rparr>"
    using assms(3) True v len by (simp add: main_step_def malloc_node_def set_node_def hp_def)
  have hp2: "hp = heap s @ [Some \<lparr>node_value = Some (xs ! nodes s), node_next = None\<rparr>]"
    by (simp add: hp_def len [symmetric])
  have lhp: "length hp = Suc (Suc (nodes s))" by (simp add: hp2 len)
  have n: "nodes (main_step s) = Suc (nodes s)" by (simp add: st nodes_def lhp)
  have sel: "heap (main_step s) = hp" "mpc (main_step s) = E_tail"
    "workers (main_step s) = workers s" "qh (main_step s) = qh s" "qt (main_step s) = qt s"
    "q_head (main_step s) = q_head s" "q_tail (main_step s) = q_tail s"
    "q_size (main_step s) = q_size s" "total_counter (main_step s) = total_counter s"
    "stdin (main_step s) = stdin s" "stdout (main_step s) = stdout s"
    "pool_index (main_step s) = pool_index s" "done_flag (main_step s) = done_flag s"
    "e_newNode (main_step s) = Suc (nodes s)"
    by (simp_all add: st)
  have lk: "linked (main_step s) = nodes s" "linked s = nodes s"
    by (simp_all add: linked_def n sel assms(3))
  have sh: "shaped xs (nodes s) hp"
    unfolding hp2 using L(1) assms(3)
    by (intro shaped_grow) (simp_all add: queue_inv_def linked_def)
  have W: "\<forall>w \<in> set (workers (main_step s)). worker_inv xs (main_step s) w"
  proof (rule workers_mono [OF L(5)])
    show "done_flag s \<Longrightarrow> done_flag (main_step s)" by (simp add: sel)
    show "done_flag s \<Longrightarrow> qh s = nodes s \<Longrightarrow> qh (main_step s) = nodes (main_step s)"
      using L(2) assms(3) by (simp add: input_inv_def)
  qed (simp_all add: sel lk)
  show ?thesis
  proof (rule invariantI [OF _ _ _ _ _ W])
    show "report_inv xs (main_step s)" using L(6) assms(3) by (simp add: sel report_inv_def)
    show "queue_inv xs (main_step s)"
      using L(1) sh unfolding queue_inv_def by (simp add: sel lk n lhp)
    show "input_inv xs (main_step s)"
      using L(2) assms(3) unfolding input_inv_def by (simp add: sel n)
    show "enqueue_inv (main_step s)" by (simp add: sel enqueue_inv_def)
    show "count_inv xs (main_step s)"
      using L(4) assms(3) unfolding count_inv_def by (simp add: sel n)
  qed
qed

lemma main_E_tail:
  assumes "invariant xs s" "exited s = None" "mpc s = E_tail"
  shows "invariant xs (main_step s)"
proof -
  have st: "main_step s = s\<lparr>e_tail := q_tail s, mpc := E_next\<rparr>"
    using assms(3) by (simp add: main_step_def)
  have ne: "mpc s \<noteq> P_end" using assms(3) by simp
  note L = invariant_live [OF assms(1,2) ne]
  have W: "\<forall>w \<in> set (workers (main_step s)). worker_inv xs (main_step s) w"
    by (rule workers_mono [OF L(5)]) (simp_all add: st inv_defs assms(3))
  show ?thesis
    by (rule invariantI [OF _ _ _ _ _ W]) (use L assms(3) in \<open>simp_all add: st inv_defs\<close>)
qed

lemma main_E_next:
  assumes "invariant xs s" "exited s = None" "mpc s = E_next"
  shows "invariant xs (main_step s)"
proof -
  have ne: "mpc s \<noteq> P_end" using assms(3) by simp
  note L = invariant_live [OF assms(1,2) ne]
  obtain te where te: "e_tail s = Some te" "te \<le> linked s"
    using L(3) assms(3) by (auto simp: enqueue_inv_def etail_ok_def)
  have "te \<le> nodes s" using te(2) by (simp add: linked_def)
  then have na: "node_at s (e_tail s) = cell xs (linked s) te"
    using node_at_cell [OF L(1)] te(1) by simp
  have st: "main_step s =
     s\<lparr>e_next := (if te < linked s then Some (Suc te) else None), mpc := E_check\<rparr>"
    using assms(3) na by (simp add: main_step_def cell_def)
  have W: "\<forall>w \<in> set (workers (main_step s)). worker_inv xs (main_step s) w"
    by (rule workers_mono [OF L(5)]) (simp_all add: st inv_defs assms(3))
  show ?thesis
    by (rule invariantI [OF _ _ _ _ _ W]) (use L assms(3) te in \<open>simp_all add: st inv_defs\<close>)
qed

lemma main_E_check:
  assumes "invariant xs s" "exited s = None" "mpc s = E_check"
  shows "invariant xs (main_step s)"
proof -
  have ne: "mpc s \<noteq> P_end" using assms(3) by simp
  note L = invariant_live [OF assms(1,2) ne]
  have st: "main_step s = s\<lparr>mpc := (if e_tail s = q_tail s
        then (if e_next s = None then E_link else E_help) else E_tail)\<rparr>"
    using assms(3) by (simp add: main_step_def)
  have W: "\<forall>w \<in> set (workers (main_step s)). worker_inv xs (main_step s) w"
    by (rule workers_mono [OF L(5)]) (simp_all add: st inv_defs assms(3))
  show ?thesis
    by (rule invariantI [OF _ _ _ _ _ W]) (use L assms(3) in \<open>auto simp: st inv_defs\<close>)
qed

lemma main_E_help:
  assumes "invariant xs s" "exited s = None" "mpc s = E_help"
  shows "invariant xs (main_step s)"
proof -
  have ne: "mpc s \<noteq> P_end" using assms(3) by simp
  note L = invariant_live [OF assms(1,2) ne]
  have st: "main_step s = (if q_tail s = e_tail s then s\<lparr>q_tail := e_next s\<rparr> else s)\<lparr>mpc := E_tail\<rparr>"
    using assms(3) by (simp add: main_step_def)
  have W: "\<forall>w \<in> set (workers (main_step s)). worker_inv xs (main_step s) w"
    by (rule workers_mono [OF L(5)]) (use L(1,3) assms(3) in \<open>auto simp: st inv_defs\<close>)
  show ?thesis
    by (rule invariantI [OF _ _ _ _ _ W]) (use L assms(3) in \<open>auto simp: st inv_defs\<close>)
qed

lemma main_E_swing:
  assumes "invariant xs s" "exited s = None" "mpc s = E_swing"
  shows "invariant xs (main_step s)"
proof -
  have ne: "mpc s \<noteq> P_end" using assms(3) by simp
  note L = invariant_live [OF assms(1,2) ne]
  have st: "main_step s =
     (if q_tail s = e_tail s then s\<lparr>q_tail := Some (e_newNode s)\<rparr> else s)\<lparr>mpc := E_inc\<rparr>"
    using assms(3) by (simp add: main_step_def)
  have W: "\<forall>w \<in> set (workers (main_step s)). worker_inv xs (main_step s) w"
    by (rule workers_mono [OF L(5)]) (use L(1,2,3) assms(3) in \<open>auto simp: st inv_defs\<close>)
  show ?thesis
    by (rule invariantI [OF _ _ _ _ _ W]) (use L assms(3) in \<open>auto simp: st inv_defs\<close>)
qed

lemma main_E_inc:
  assumes "invariant xs s" "exited s = None" "mpc s = E_inc"
  shows "invariant xs (main_step s)"
proof -
  have ne: "mpc s \<noteq> P_end" using assms(3) by simp
  note L = invariant_live [OF assms(1,2) ne]
  have st: "main_step s =
     s\<lparr>q_size := q_size s + 1, m_total_numbers := m_total_numbers s + 1, mpc := P_scan\<rparr>"
    using assms(3) by (simp add: main_step_def)
  have "sint (q_size s) \<le> 255" using L(4) assms(3) by (simp add: count_inv_def)
  then have i: "sint (q_size s + 1) = sint (q_size s) + 1" "sint (q_size s) \<le> 255"
    by (simp_all add: sint_succ32)
  have W: "\<forall>w \<in> set (workers (main_step s)). worker_inv xs (main_step s) w"
    by (rule workers_mono [OF L(5)]) (simp_all add: st inv_defs assms(3))
  show ?thesis
    by (rule invariantI [OF _ _ _ _ _ W]) (use L assms(3) i in \<open>simp_all add: st inv_defs\<close>)
qed

lemma main_E_link:
  assumes "invariant xs s" "exited s = None" "mpc s = E_link"
  shows "invariant xs (main_step s)"
proof -
  have ne: "mpc s \<noteq> P_end" using assms(3) by simp
  note L = invariant_live [OF assms(1,2) ne]
  obtain te where te: "e_tail s = Some te" "te \<le> linked s" "e_next s = None"
    using L(3) assms(3) by (auto simp: enqueue_inv_def etail_ok_def)
  have lk: "linked s = nodes s - 1" "1 \<le> nodes s"
    using L(1) assms(3) by (simp_all add: linked_def queue_inv_def)
  have len: "length (heap s) = Suc (nodes s)" using L(1) by (simp add: queue_inv_def)
  have "te \<le> nodes s" using te(2) lk by simp
  then have na: "node_at s (e_tail s) = cell xs (linked s) te"
    using node_at_cell [OF L(1)] te(1) by simp
  show ?thesis
  proof (cases "te < linked s")
    case True
    then have st: "main_step s = s\<lparr>mpc := E_tail\<rparr>"
      using assms(3) na te by (simp add: main_step_def cell_def)
    have W: "\<forall>w \<in> set (workers (main_step s)). worker_inv xs (main_step s) w"
      by (rule workers_mono [OF L(5)]) (simp_all add: st inv_defs assms(3))
    show ?thesis
      by (rule invariantI [OF _ _ _ _ _ W]) (use L assms(3) in \<open>simp_all add: st inv_defs\<close>)
  next
    case False
    then have tl: "te = linked s" using te(2) by simp
    define nd where "nd = the (cell xs (linked s) te)"
    have hn: "heap s ! te = Some nd"
      using na te(1) \<open>te \<le> nodes s\<close> len by (simp add: node_at_def nd_def cell_def)
    define hp where "hp = (heap s)[te := Some (nd\<lparr>node_next := Some (Suc te)\<rparr>)]"
    have nw: "e_newNode s = Suc te" using L(2) assms(3) tl lk by (simp add: input_inv_def)
    have st: "main_step s = s\<lparr>heap := hp, mpc := E_swing\<rparr>"
      using assms(3) na te tl nw
      by (simp add: main_step_def cell_def set_node_def hp_def nd_def)
    have lhp: "length hp = Suc (nodes s)" by (simp add: hp_def len)
    have n: "nodes (main_step s) = nodes s" by (simp add: st nodes_def lhp)
    have sel: "heap (main_step s) = hp" "mpc (main_step s) = E_swing"
      "workers (main_step s) = workers s" "qh (main_step s) = qh s" "qt (main_step s) = qt s"
      "q_head (main_step s) = q_head s" "q_tail (main_step s) = q_tail s"
      "q_size (main_step s) = q_size s" "total_counter (main_step s) = total_counter s"
      "stdin (main_step s) = stdin s" "stdout (main_step s) = stdout s"
      "pool_index (main_step s) = pool_index s" "done_flag (main_step s) = done_flag s"
      "e_newNode (main_step s) = e_newNode s" "e_tail (main_step s) = e_tail s"
      "m_num (main_step s) = m_num s"
      by (simp_all add: st)
    have lk': "linked (main_step s) = nodes s" by (simp add: linked_def n sel)
    have sh: "shaped xs (Suc te) hp"
      unfolding hp_def using L(1) hn tl lk len
      by (intro shaped_link) (simp_all add: queue_inv_def)
    have W: "\<forall>w \<in> set (workers (main_step s)). worker_inv xs (main_step s) w"
    proof (rule workers_mono [OF L(5)])
      show "done_flag s \<Longrightarrow> done_flag (main_step s)" by (simp add: sel)
      show "done_flag s \<Longrightarrow> qh s = nodes s \<Longrightarrow> qh (main_step s) = nodes (main_step s)"
        by (simp add: sel n)
    qed (simp_all add: sel lk lk')
    show ?thesis
    proof (rule invariantI [OF _ _ _ _ _ W])
      show "report_inv xs (main_step s)" using L(6) assms(3) by (simp add: sel report_inv_def)
      show "queue_inv xs (main_step s)"
        using L(1) sh tl lk unfolding queue_inv_def by (auto simp: sel lk' n lhp)
      show "input_inv xs (main_step s)"
        using L(2) assms(3) unfolding input_inv_def by (simp add: sel n)
      show "enqueue_inv (main_step s)"
        using te lk tl by (simp add: sel enqueue_inv_def etail_ok_def lk')
      show "count_inv xs (main_step s)"
        using L(4) assms(3) unfolding count_inv_def by (simp add: sel n)
    qed
  qed
qed

lemma main_P_done:
  assumes "invariant xs s" "exited s = None" "mpc s = P_done"
  shows "invariant xs (main_step s)"
proof -
  have ne: "mpc s \<noteq> P_end" using assms(3) by simp
  note L = invariant_live [OF assms(1,2) ne]
  have st: "main_step s = s\<lparr>done_flag := True, mpc := P_join\<rparr>"
    using assms(3) by (simp add: main_step_def)
  have W: "\<forall>w \<in> set (workers (main_step s)). worker_inv xs (main_step s) w"
    by (rule workers_mono [OF L(5)]) (simp_all add: st inv_defs assms(3))
  show ?thesis
    by (rule invariantI [OF _ _ _ _ _ W]) (use L assms(3) in \<open>simp_all add: st inv_defs\<close>)
qed

lemma main_P_join:
  assumes "invariant xs s" "exited s = None" "mpc s = P_join"
  shows "invariant xs (main_step s)"
proof (cases "\<forall>w \<in> set (workers s). wpc w = W_exit")
  case False
  then have "main_step s = s" using assms(3) by (auto simp: main_step_def)
  then show ?thesis using assms(1) by simp
next
  case True
  have ne: "mpc s \<noteq> P_end" using assms(3) by simp
  note L = invariant_live [OF assms(1,2) ne]
  have st: "main_step s = s\<lparr>mpc := P_print\<rparr>"
    using assms(3) True by (simp add: main_step_def)
  have W: "\<forall>w \<in> set (workers (main_step s)). worker_inv xs (main_step s) w"
    by (rule workers_mono [OF L(5)]) (simp_all add: st inv_defs assms(3))
  show ?thesis
    by (rule invariantI [OF _ _ _ _ _ W]) (use L assms(3) True in \<open>simp_all add: st inv_defs\<close>)
qed

lemma sum_list_all_0: "\<forall>x \<in> set xs. f x = (0::nat) \<Longrightarrow> sum_list (map f xs) = 0"
  by (induction xs) simp_all

lemma all_exited:
  assumes "queue_inv xs s" "\<forall>w \<in> set (workers s). worker_inv xs s w"
    "\<forall>w \<in> set (workers s). wpc w = W_exit"
  shows "qh s = nodes s" "sum_list (map credit (workers s)) = 0"
    "sum_list (map decrementing (workers s)) = 0"
proof -
  have "workers s \<noteq> []" using assms(1) by (simp add: queue_inv_def)
  then have "hd (workers s) \<in> set (workers s)" by simp
  then obtain w where w: "w \<in> set (workers s)" by blast
  then have "wpc w = W_exit" "worker_inv xs s w" using assms(2,3) by simp_all
  then show "qh s = nodes s" by (simp add: worker_inv_def)
  show "sum_list (map credit (workers s)) = 0"
    using assms(3) by (intro sum_list_all_0) (simp add: credit_def)
  show "sum_list (map decrementing (workers s)) = 0"
    using assms(3) by (intro sum_list_all_0) (simp add: decrementing_def)
qed

lemma main_P_print:
  assumes "invariant xs s" "exited s = None" "mpc s = P_print"
  shows "invariant xs (main_step s)"
proof -
  have ne: "mpc s \<noteq> P_end" using assms(3) by simp
  note L = invariant_live [OF assms(1,2) ne]
  have st: "main_step s = s\<lparr>stdout := Some (total_counter s), mpc := P_free\<rparr>"
    using assms(3) by (simp add: main_step_def)
  have ex: "\<forall>w \<in> set (workers s). wpc w = W_exit" using L(6) assms(3) by (simp add: report_inv_def)
  note a = all_exited [OF L(1) L(5) ex]
  have n: "nodes s = length xs" "length xs \<le> 10000000"
    using L(2) assms(3) by (simp_all add: input_inv_def)
  have t: "sint (total_counter s) = int (count_primes xs)"
    using L(4) a n by (simp add: count_inv_def)
  have W: "\<forall>w \<in> set (workers (main_step s)). worker_inv xs (main_step s) w"
    by (rule workers_mono [OF L(5)]) (simp_all add: st inv_defs assms(3))
  show ?thesis
    by (rule invariantI [OF _ _ _ _ _ W]) (use L assms(3) t n ex in \<open>simp_all add: st inv_defs\<close>)
qed

lemma freeQueue_last:
  assumes "q_head s = Some a" "node_at s (Some a) = Some nd" "node_next nd = None"
  shows "freeQueue s = Some (Inr (free_node a (s\<lparr>q_head := None\<rparr>)))"
proof -
  have "freeQueue (free_node a (s\<lparr>q_head := None\<rparr>)) = Some (Inr (free_node a (s\<lparr>q_head := None\<rparr>)))"
    by (subst freeQueue.simps) (simp add: free_node_def)
  then show ?thesis using assms by (subst freeQueue.simps) simp
qed

lemma main_P_free_step:
  assumes "invariant xs s" "exited s = None" "mpc s = P_free"
  shows "main_step s = (free_node (qh s) (s\<lparr>q_head := None\<rparr>))\<lparr>mpc := P_end\<rparr>"
proof -
  have ne: "mpc s \<noteq> P_end" using assms(3) by simp
  note L = invariant_live [OF assms(1,2) ne]
  have ex: "\<forall>w \<in> set (workers s). wpc w = W_exit" using L(6) assms(3) by (simp add: report_inv_def)
  note a = all_exited [OF L(1) L(5) ex]
  have lk: "linked s = nodes s" using assms(3) by (simp add: linked_def)
  have na: "node_at s (Some (qh s)) = cell xs (nodes s) (nodes s)"
    using node_at_cell [OF L(1), of "qh s"] a(1) lk by simp
  have hd: "q_head s = Some (qh s)" using L(1) by (simp add: queue_inv_def)
  have "freeQueue s = Some (Inr (free_node (qh s) (s\<lparr>q_head := None\<rparr>)))"
    by (rule freeQueue_last [OF hd na [unfolded cell_def]]) simp
  then show ?thesis using assms(3) by (simp add: main_step_def)
qed

lemma main_P_free:
  assumes "invariant xs s" "exited s = None" "mpc s = P_free"
  shows "invariant xs (main_step s)"
proof -
  have "report_inv xs s" "done_flag s" using assms by (simp_all add: invariant_def live_inv_def input_inv_def)
  then show ?thesis
    using assms(3) unfolding main_P_free_step [OF assms] invariant_def report_inv_def
    by (simp add: free_node_def)
qed

lemma main_preserves:
  assumes "invariant xs s" "exited s = None"
  shows "invariant xs (main_step s)"
proof (cases "mpc s")
  case P_end
  then show ?thesis using assms(1) by (simp add: main_step_def)
qed (simp_all add: assms main_P_scan main_P_wait main_P_alloc main_P_store main_E_malloc
    main_E_tail main_E_next main_E_check main_E_link main_E_swing main_E_inc main_E_help
    main_P_done main_P_join main_P_print main_P_free)

lemma sum_list_update_nat:
  "i < length ws \<Longrightarrow>
   sum_list (map f (ws[i := w])) + f (ws ! i) = sum_list (map f ws) + (f w :: nat)"
proof (induction ws arbitrary: i)
  case Nil
  then show ?case by simp
next
  case (Cons a ws)
  then show ?case by (cases i) (simp_all add: add.assoc add.left_commute)
qed

lemma workers_update:
  assumes "\<forall>w \<in> set (workers s). worker_inv xs s w"
    "workers s' = (workers s)[i := w']" "worker_inv xs s' w'"
    "qh s \<le> qh s'" "qt s \<le> qt s'" "linked s \<le> linked s'"
    "done_flag s \<Longrightarrow> done_flag s'"
    "done_flag s \<Longrightarrow> qh s = nodes s \<Longrightarrow> qh s' = nodes s'"
  shows "\<forall>w \<in> set (workers s'). worker_inv xs s' w"
proof
  fix w assume "w \<in> set (workers s')"
  then have "w = w' \<or> w \<in> set (workers s)"
    using assms(2) set_update_subset_insert [of "workers s" i w'] by auto
  then show "worker_inv xs s' w"
  proof
    assume "w = w'" then show ?thesis using assms(3) by simp
  next
    assume "w \<in> set (workers s)"
    then have w: "worker_inv xs s w" using assms(1) by simp
    show ?thesis
      by (rule worker_inv_mono [OF w assms(4-8)])
  qed
qed

lemma enqueue_inv_mono:
  assumes "enqueue_inv s" "mpc s' = mpc s" "e_tail s' = e_tail s" "e_next s' = e_next s"
    "linked s \<le> linked s'"
  shows "enqueue_inv s'"
  using assms unfolding enqueue_inv_def etail_ok_def
  by (cases "mpc s") auto

lemma worker_live:
  assumes "invariant xs s" "exited s = None" "i < length (workers s)"
    "wpc (workers s ! i) \<noteq> W_exit"
  shows "queue_inv xs s" "input_inv xs s" "enqueue_inv s" "count_inv xs s"
    "\<forall>w \<in> set (workers s). worker_inv xs s w" "report_inv xs s"
    "worker_inv xs s (workers s ! i)" "mpc s \<notin> {P_print, P_free, P_end}"
proof -
  have R: "report_inv xs s" using assms(1) by (simp add: invariant_def)
  have m: "workers s ! i \<in> set (workers s)" using assms(3) by simp
  show pc: "mpc s \<notin> {P_print, P_free, P_end}"
  proof
    assume "mpc s \<in> {P_print, P_free, P_end}"
    then have "\<forall>w \<in> set (workers s). wpc w = W_exit" using R by (simp add: report_inv_def)
    then show False using m assms(4) by blast
  qed
  then have "mpc s \<noteq> P_end" by simp
  note L = invariant_live [OF assms(1,2) this]
  show "queue_inv xs s" "input_inv xs s" "enqueue_inv s" "count_inv xs s"
    "\<forall>w \<in> set (workers s). worker_inv xs s w" "report_inv xs s"
    by (rule L)+
  show "worker_inv xs s (workers s ! i)" using L(5) m by blast
qed

lemma worker_local:
  assumes "invariant xs s" "exited s = None" "i < length (workers s)"
    "wpc (workers s ! i) \<noteq> W_exit"
    "worker_inv xs s w'" "credit w' = credit (workers s ! i)"
    "decrementing w' = decrementing (workers s ! i)"
  shows "invariant xs (set_worker i w' s)"
proof -
  note L = worker_live [OF assms(1-4)]
  let ?s = "set_worker i w' s"
  have sel: "workers ?s = (workers s)[i := w']" "heap ?s = heap s" "mpc ?s = mpc s"
    "q_head ?s = q_head s" "q_tail ?s = q_tail s" "q_size ?s = q_size s"
    "total_counter ?s = total_counter s" "stdin ?s = stdin s" "stdout ?s = stdout s"
    "pool_index ?s = pool_index s" "done_flag ?s = done_flag s" "e_newNode ?s = e_newNode s"
    "e_tail ?s = e_tail s" "e_next ?s = e_next s" "m_num ?s = m_num s" "m_node ?s = m_node s"
    "pool_nodes ?s = pool_nodes s" "qh ?s = qh s" "qt ?s = qt s" "nodes ?s = nodes s"
    "linked ?s = linked s"
    by (simp_all add: set_worker_def linked_def)
  have wi: "worker_inv xs ?s w'"
    by (rule worker_inv_mono [OF assms(5)]) (simp_all add: sel)
  have W: "\<forall>w \<in> set (workers ?s). worker_inv xs ?s w"
    by (rule workers_update [OF L(5) sel(1) wi]) (simp_all add: sel)
  have c: "sum_list (map credit ((workers s)[i := w'])) = sum_list (map credit (workers s))"
    using sum_list_update_nat [OF assms(3), of credit w'] assms(6) by simp
  have d: "sum_list (map decrementing ((workers s)[i := w'])) =
      sum_list (map decrementing (workers s))"
    using sum_list_update_nat [OF assms(3), of decrementing w'] assms(7) by simp
  show ?thesis
  proof (rule invariantI [OF _ _ _ _ _ W])
    show "report_inv xs ?s" using L(6,8) unfolding report_inv_def by (simp add: sel)
    show "queue_inv xs ?s" using L(1) unfolding queue_inv_def by (simp add: sel)
    show "input_inv xs ?s" using L(2) unfolding input_inv_def by (simp add: sel)
    show "enqueue_inv ?s" by (rule enqueue_inv_mono [OF L(3)]) (simp_all add: sel)
    show "count_inv xs ?s" using L(4) unfolding count_inv_def by (simp add: sel c d)
  qed
qed

lemma prime_bit_minus_1: "prime_bit (- 1) = 0"
  by (simp add: prime_bit_def isPrime_minus_1)

lemma finishing_pc: "finishing pc \<Longrightarrow> uncounted pc = 0 \<and> unlinked pc = 0"
  by (cases pc) simp_all

lemma worker_W_done:
  assumes "invariant xs s" "exited s = None" "i < length (workers s)"
    "wpc (workers s ! i) = W_done"
  shows "invariant xs (worker_step i s)"
proof -
  have ne: "wpc (workers s ! i) \<noteq> W_exit" using assms(4) by simp
  have "worker_step i s =
      set_worker i ((workers s ! i)\<lparr>wpc := if \<not> done_flag s then D_head else W_size\<rparr>) s"
    using assms(4) by (simp add: worker_step_def Let_def)
  moreover have "invariant xs \<dots>"
    by (rule worker_local [OF assms(1-3) ne])
      (simp_all add: worker_inv_def credit_def decrementing_def assms(4))
  ultimately show ?thesis by simp
qed

lemma worker_W_size:
  assumes "invariant xs s" "exited s = None" "i < length (workers s)"
    "wpc (workers s ! i) = W_size"
  shows "invariant xs (worker_step i s)"
proof -
  have ne: "wpc (workers s ! i) \<noteq> W_exit" using assms(4) by simp
  note L = worker_live [OF assms(1-3) ne]
  have d: "done_flag s" using L(7) assms(4) by (simp add: worker_inv_def)
  then have f: "finishing (mpc s)" using L(2) by (simp add: input_inv_def)
  have e: "\<not> 0 < sint (q_size s) \<Longrightarrow> qh s = nodes s"
    using L(1,4) finishing_pc [OF f] by (simp add: count_inv_def queue_inv_def linked_def)
  have "worker_step i s =
      set_worker i ((workers s ! i)\<lparr>wpc := if 0 < sint (q_size s) then D_head else W_exit\<rparr>) s"
    using assms(4) by (simp add: worker_step_def Let_def)
  moreover have "invariant xs \<dots>"
    by (rule worker_local [OF assms(1-3) ne])
      (use d e in \<open>simp_all add: worker_inv_def credit_def decrementing_def assms(4)\<close>)
  ultimately show ?thesis by simp
qed

lemma worker_D_head:
  assumes "invariant xs s" "exited s = None" "i < length (workers s)"
    "wpc (workers s ! i) = D_head"
  shows "invariant xs (worker_step i s)"
proof -
  have ne: "wpc (workers s ! i) \<noteq> W_exit" using assms(4) by simp
  note L = worker_live [OF assms(1-3) ne]
  have "worker_step i s = set_worker i ((workers s ! i)\<lparr>d_head := q_head s, wpc := D_tail\<rparr>) s"
    using assms(4) by (simp add: worker_step_def Let_def)
  moreover have "invariant xs \<dots>"
    by (rule worker_local [OF assms(1-3) ne])
      (use L(1) in \<open>simp_all add: worker_inv_def head_ok_def queue_inv_def credit_def
         decrementing_def assms(4)\<close>)
  ultimately show ?thesis by simp
qed

lemma worker_D_tail:
  assumes "invariant xs s" "exited s = None" "i < length (workers s)"
    "wpc (workers s ! i) = D_tail"
  shows "invariant xs (worker_step i s)"
proof -
  have ne: "wpc (workers s ! i) \<noteq> W_exit" using assms(4) by simp
  note L = worker_live [OF assms(1-3) ne]
  have "worker_step i s = set_worker i ((workers s ! i)\<lparr>d_tail := q_tail s, wpc := D_next\<rparr>) s"
    using assms(4) by (simp add: worker_step_def Let_def)
  moreover have "invariant xs \<dots>"
    by (rule worker_local [OF assms(1-3) ne])
      (use L(1,7) in \<open>simp_all add: worker_inv_def head_ok_def tail_ok_def queue_inv_def
         credit_def decrementing_def assms(4)\<close>)
  ultimately show ?thesis by simp
qed

lemma worker_D_next:
  assumes "invariant xs s" "exited s = None" "i < length (workers s)"
    "wpc (workers s ! i) = D_next"
  shows "invariant xs (worker_step i s)"
proof -
  have ne: "wpc (workers s ! i) \<noteq> W_exit" using assms(4) by simp
  note L = worker_live [OF assms(1-3) ne]
  let ?w = "workers s ! i"
  obtain hw where hw: "d_head ?w = Some hw" "hw \<le> qh s" "hw \<le> the (d_tail ?w)"
    "the (d_tail ?w) \<le> qt s" "d_tail ?w \<noteq> None"
    using L(7) assms(4) by (auto simp: worker_inv_def head_ok_def tail_ok_def)
  have q: "qh s \<le> qt s" "qt s \<le> linked s" "linked s \<le> nodes s"
    using L(1) by (simp_all add: queue_inv_def linked_def)
  have na: "node_at s (d_head ?w) = cell xs (linked s) hw"
    using node_at_cell [OF L(1), of hw] hw q by simp
  have "worker_step i s = set_worker i
      (?w\<lparr>d_next := if hw < linked s then Some (Suc hw) else None, wpc := D_check\<rparr>) s"
    using assms(4) na by (simp add: worker_step_def cell_def Let_def)
  moreover have "invariant xs \<dots>"
    by (rule worker_local [OF assms(1-3) ne])
      (use hw q in \<open>simp_all add: worker_inv_def head_ok_def tail_ok_def next_ok_def
         credit_def decrementing_def assms(4)\<close>)
  ultimately show ?thesis by simp
qed

lemma worker_D_check:
  assumes "invariant xs s" "exited s = None" "i < length (workers s)"
    "wpc (workers s ! i) = D_check"
  shows "invariant xs (worker_step i s)"
proof -
  have ne: "wpc (workers s ! i) \<noteq> W_exit" using assms(4) by simp
  note L = worker_live [OF assms(1-3) ne]
  let ?w = "workers s ! i"
  have wi: "head_ok s ?w" "tail_ok s ?w" "next_ok s ?w"
    using L(7) assms(4) by (simp_all add: worker_inv_def)
  define w' where "w' =
     (if d_head ?w = q_head s then
        (if d_head ?w = d_tail ?w then
           (if d_next ?w = None then ?w\<lparr>w_num := - 1, wpc := W_num\<rparr>
            else ?w\<lparr>wpc := D_help\<rparr>)
         else ?w\<lparr>wpc := D_value\<rparr>)
      else ?w\<lparr>wpc := D_head\<rparr>)"
  have "worker_step i s = set_worker i w' s"
    using assms(4) by (auto simp: worker_step_def w'_def Let_def)
  moreover have "invariant xs (set_worker i w' s)"
  proof (rule worker_local [OF assms(1-3) ne])
    show "worker_inv xs s w'"
      using wi unfolding w'_def worker_inv_def head_ok_def tail_ok_def next_ok_def next_set_def
      by auto
    show "credit w' = credit ?w"
      by (simp add: w'_def credit_def assms(4) prime_bit_minus_1)
    show "decrementing w' = decrementing ?w"
      by (simp add: w'_def decrementing_def assms(4))
  qed
  ultimately show ?thesis by simp
qed

lemma worker_D_value:
  assumes "invariant xs s" "exited s = None" "i < length (workers s)"
    "wpc (workers s ! i) = D_value"
  shows "invariant xs (worker_step i s)"
proof -
  have ne: "wpc (workers s ! i) \<noteq> W_exit" using assms(4) by simp
  note L = worker_live [OF assms(1-3) ne]
  let ?w = "workers s ! i"
  have wi: "head_ok s ?w" "tail_ok s ?w" "next_set ?w" "the (d_head ?w) < the (d_tail ?w)"
    using L(7) assms(4) by (simp_all add: worker_inv_def)
  have q: "qh s \<le> qt s" "qt s \<le> linked s" "linked s \<le> nodes s"
    using L(1) by (simp_all add: queue_inv_def linked_def)
  define hw where "hw = the (d_head ?w)"
  have nx: "d_next ?w = Some (Suc hw)" using wi(3) by (simp add: next_set_def hw_def)
  have "Suc hw \<le> nodes s" using wi(2,4) q by (simp add: tail_ok_def hw_def)
  then have na: "node_at s (d_next ?w) = cell xs (linked s) (Suc hw)"
    using node_at_cell [OF L(1), of "Suc hw"] nx by simp
  have "worker_step i s = set_worker i (?w\<lparr>d_value := xs ! hw, wpc := D_cas\<rparr>) s"
    using assms(4) na by (simp add: worker_step_def cell_def Let_def)
  moreover have "invariant xs \<dots>"
    by (rule worker_local [OF assms(1-3) ne])
      (use wi in \<open>simp_all add: worker_inv_def head_ok_def tail_ok_def next_set_def
         credit_def decrementing_def assms(4) hw_def\<close>)
  ultimately show ?thesis by simp
qed

lemma worker_W_num:
  assumes "invariant xs s" "exited s = None" "i < length (workers s)"
    "wpc (workers s ! i) = W_num"
  shows "invariant xs (worker_step i s)"
proof -
  have ne: "wpc (workers s ! i) \<noteq> W_exit" using assms(4) by simp
  let ?w = "workers s ! i"
  obtain b where b: "isPrime (w_num ?w) = Some b" using isPrime_total [of "w_num ?w"] by auto
  define w' where "w' = (if w_num ?w = - 1 then ?w\<lparr>wpc := W_sleep\<rparr>
     else ?w\<lparr>wpc := if b then W_add else W_done\<rparr>)"
  have "worker_step i s = set_worker i w' s"
    using assms(4) b by (simp add: worker_step_def w'_def Let_def)
  moreover have "invariant xs (set_worker i w' s)"
  proof (rule worker_local [OF assms(1-3) ne])
    show "worker_inv xs s w'" by (simp add: w'_def worker_inv_def)
    show "credit w' = credit ?w"
      using b by (auto simp: w'_def credit_def assms(4) prime_bit_def isPrime_minus_1)
    show "decrementing w' = decrementing ?w"
      by (simp add: w'_def decrementing_def assms(4))
  qed
  ultimately show ?thesis by simp
qed

lemma worker_W_sleep:
  assumes "invariant xs s" "exited s = None" "i < length (workers s)"
    "wpc (workers s ! i) = W_sleep"
  shows "invariant xs (worker_step i s)"
proof -
  have ne: "wpc (workers s ! i) \<noteq> W_exit" using assms(4) by simp
  have "worker_step i s = set_worker i ((workers s ! i)\<lparr>wpc := W_done\<rparr>) s"
    using assms(4) by (simp add: worker_step_def Let_def)
  moreover have "invariant xs \<dots>"
    by (rule worker_local [OF assms(1-3) ne])
      (simp_all add: worker_inv_def credit_def decrementing_def assms(4))
  ultimately show ?thesis by simp
qed

lemma worker_global:
  assumes "invariant xs s" "exited s = None" "i < length (workers s)"
    "wpc (workers s ! i) \<noteq> W_exit"
    and s': "s' = set_worker i w' (s\<lparr>q_head := Some h, q_tail := Some t, q_size := z,
       total_counter := c\<rparr>)"
    and "qh s \<le> h" "qt s \<le> t" "h \<le> t" "t \<le> linked s"
    "done_flag s \<Longrightarrow> qh s = nodes s \<Longrightarrow> h = nodes s"
    "worker_inv xs s' w'" "count_inv xs s'"
  shows "invariant xs s'"
proof -
  note L = worker_live [OF assms(1-4)]
  have sel: "workers s' = (workers s)[i := w']" "heap s' = heap s" "mpc s' = mpc s"
    "q_head s' = Some h" "q_tail s' = Some t" "q_size s' = z"
    "total_counter s' = c" "stdin s' = stdin s" "stdout s' = stdout s"
    "pool_index s' = pool_index s" "done_flag s' = done_flag s" "e_newNode s' = e_newNode s"
    "e_tail s' = e_tail s" "e_next s' = e_next s" "m_num s' = m_num s" "m_node s' = m_node s"
    "pool_nodes s' = pool_nodes s" "qh s' = h" "qt s' = t" "nodes s' = nodes s"
    "linked s' = linked s"
    by (simp_all add: s' set_worker_def linked_def nodes_def)
  have W: "\<forall>w \<in> set (workers s'). worker_inv xs s' w"
    by (rule workers_update [OF L(5) sel(1) assms(11)]) (use assms(6-10) in \<open>simp_all add: sel\<close>)
  have z: "sint z \<le> 256" using assms(12) by (simp add: count_inv_def sel split: if_splits)
  show ?thesis
  proof (rule invariantI [OF _ _ _ _ assms(12) W])
    show "report_inv xs s'" using L(6,8) z unfolding report_inv_def by (simp add: sel)
    show "queue_inv xs s'" using L(1) assms(6-9) unfolding queue_inv_def by (simp add: sel)
    show "input_inv xs s'" using L(2) unfolding input_inv_def by (simp add: sel)
    show "enqueue_inv s'" by (rule enqueue_inv_mono [OF L(3)]) (simp_all add: sel)
  qed
qed

lemma same_fields:
  "q_head s = Some a \<Longrightarrow> q_tail s = Some b \<Longrightarrow>
   s\<lparr>q_head := Some a, q_tail := Some b, q_size := q_size s, total_counter := total_counter s\<rparr> = s"
  by simp

lemma sum_update_credit:
  assumes "i < length ws"
  shows "int (sum_list (map f ((ws[i := w]) :: worker list))) =
         int (sum_list (map f ws)) - int (f (ws ! i)) + int (f w :: nat)"
  using sum_list_update_nat [OF assms, of f w] by linarith

lemma uncounted_le: "uncounted pc \<le> unlinked pc + 1"
  by (cases pc) simp_all

lemma count_primes_take_Suc:
  "k < length xs \<Longrightarrow> count_primes (take (Suc k) xs) = count_primes (take k xs) + prime_bit (xs ! k)"
  by (simp add: count_primes_def take_Suc_conv_app_nth prime_bit_def)

lemma count_primes_le: "count_primes xs \<le> length xs"
  by (simp add: count_primes_def)

lemma worker_D_help:
  assumes "invariant xs s" "exited s = None" "i < length (workers s)"
    "wpc (workers s ! i) = D_help"
  shows "invariant xs (worker_step i s)"
proof -
  have ne: "wpc (workers s ! i) \<noteq> W_exit" using assms(4) by simp
  note L = worker_live [OF assms(1-3) ne]
  let ?w = "workers s ! i"
  have wi: "head_ok s ?w" "tail_ok s ?w" "next_set ?w" "d_head ?w = d_tail ?w"
    "the (d_head ?w) < linked s"
    using L(7) assms(4) by (auto simp: worker_inv_def)
  have q: "q_head s = Some (qh s)" "q_tail s = Some (qt s)" "qh s \<le> qt s" "qt s \<le> linked s"
    using L(1) by (simp_all add: queue_inv_def)
  define hw where "hw = the (d_head ?w)"
  have hw: "d_head ?w = Some hw" "d_tail ?w = Some hw" "d_next ?w = Some (Suc hw)"
    "hw \<le> qh s" "hw \<le> qt s" "hw < linked s"
    using wi by (auto simp: head_ok_def tail_ok_def next_set_def hw_def)
  define t where "t = (if qt s = hw then Suc hw else qt s)"
  define w' where "w' = ?w\<lparr>wpc := D_head\<rparr>"
  define s' where "s' = set_worker i w' (s\<lparr>q_head := Some (qh s), q_tail := Some t,
      q_size := q_size s, total_counter := total_counter s\<rparr>)"
  have st: "worker_step i s = s'"
    using assms(4) hw q by (auto simp: worker_step_def Let_def s'_def t_def w'_def set_worker_def)
  have sums: "sum_list (map credit ((workers s)[i := w'])) = sum_list (map credit (workers s))"
    "sum_list (map decrementing ((workers s)[i := w'])) = sum_list (map decrementing (workers s))"
    using sum_list_update_nat [OF assms(3), of credit w']
      sum_list_update_nat [OF assms(3), of decrementing w']
    by (simp_all add: w'_def credit_def decrementing_def assms(4))
  have "invariant xs s'"
  proof (rule worker_global [OF assms(1-3) ne s'_def])
    show "worker_inv xs s' w'" by (simp add: w'_def worker_inv_def)
    show "count_inv xs s'"
      using L(4) unfolding count_inv_def by (simp add: s'_def set_worker_def sums)
  qed (use q hw in \<open>auto simp: t_def\<close>)
  then show ?thesis by (simp add: st)
qed

lemma worker_D_cas:
  assumes "invariant xs s" "exited s = None" "i < length (workers s)"
    "wpc (workers s ! i) = D_cas"
  shows "invariant xs (worker_step i s)"
proof -
  have ne: "wpc (workers s ! i) \<noteq> W_exit" using assms(4) by simp
  note L = worker_live [OF assms(1-3) ne]
  let ?w = "workers s ! i"
  have wi: "head_ok s ?w" "tail_ok s ?w" "next_set ?w" "the (d_head ?w) < the (d_tail ?w)"
    "d_value ?w = xs ! the (d_head ?w)"
    using L(7) assms(4) by (simp_all add: worker_inv_def)
  have q: "q_head s = Some (qh s)" "q_tail s = Some (qt s)" "qh s \<le> qt s" "qt s \<le> linked s"
    "linked s \<le> nodes s"
    using L(1) by (simp_all add: queue_inv_def linked_def)
  define hw where "hw = the (d_head ?w)"
  have hw: "d_head ?w = Some hw" "d_next ?w = Some (Suc hw)" "hw \<le> qh s" "Suc hw \<le> qt s"
    "d_value ?w = xs ! hw"
    using wi by (auto simp: head_ok_def tail_ok_def next_set_def hw_def)
  show ?thesis
  proof (cases "qh s = hw")
    case False
    then have "worker_step i s = set_worker i (?w\<lparr>wpc := D_head\<rparr>) s"
      using assms(4) hw q by (simp add: worker_step_def Let_def)
    moreover have "invariant xs \<dots>"
      by (rule worker_local [OF assms(1-3) ne])
        (simp_all add: worker_inv_def credit_def decrementing_def assms(4))
    ultimately show ?thesis by simp
  next
    case True
    define w' where "w' = ?w\<lparr>wpc := D_dec\<rparr>"
    define s' where "s' = set_worker i w' (s\<lparr>q_head := Some (Suc hw), q_tail := Some (qt s),
        q_size := q_size s, total_counter := total_counter s\<rparr>)"
    have st: "worker_step i s = s'"
      using assms(4) hw q True by (simp add: worker_step_def Let_def s'_def w'_def set_worker_def)
    have lx: "hw < length xs" using hw(4) q L(2) by (simp add: input_inv_def)
    have sums: "int (sum_list (map credit ((workers s)[i := w']))) =
          int (sum_list (map credit (workers s))) + int (prime_bit (xs ! hw))"
      "int (sum_list (map decrementing ((workers s)[i := w']))) =
          int (sum_list (map decrementing (workers s))) + 1"
      using sum_update_credit [OF assms(3), of credit w']
        sum_update_credit [OF assms(3), of decrementing w'] hw(5)
      by (simp_all add: w'_def credit_def decrementing_def assms(4))
    have "invariant xs s'"
    proof (rule worker_global [OF assms(1-3) ne s'_def])
      show "worker_inv xs s' w'" by (simp add: w'_def worker_inv_def)
      show "count_inv xs s'"
        using L(4) True lx unfolding count_inv_def
        by (simp add: s'_def set_worker_def sums count_primes_take_Suc)
    qed (use q hw True in auto)
    then show ?thesis by (simp add: st)
  qed
qed

lemma worker_D_dec:
  assumes "invariant xs s" "exited s = None" "i < length (workers s)"
    "wpc (workers s ! i) = D_dec"
  shows "invariant xs (worker_step i s)"
proof -
  have ne: "wpc (workers s ! i) \<noteq> W_exit" using assms(4) by simp
  note L = worker_live [OF assms(1-3) ne]
  let ?w = "workers s ! i"
  have q: "q_head s = Some (qh s)" "q_tail s = Some (qt s)" "qh s \<le> qt s" "qt s \<le> linked s"
    "unlinked (mpc s) \<le> nodes s"
    using L(1) by (simp_all add: queue_inv_def)
  define w' where "w' = ?w\<lparr>w_dequeuedNode := d_head ?w, w_num := d_value ?w, wpc := W_num\<rparr>"
  define s' where "s' = set_worker i w' (s\<lparr>q_head := Some (qh s), q_tail := Some (qt s),
      q_size := q_size s - 1, total_counter := total_counter s\<rparr>)"
  have st: "worker_step i s = s'"
    using assms(4) q by (simp add: worker_step_def Let_def s'_def w'_def set_worker_def)
  have sums: "sum_list (map credit ((workers s)[i := w'])) = sum_list (map credit (workers s))"
    "int (sum_list (map decrementing ((workers s)[i := w']))) =
          int (sum_list (map decrementing (workers s))) - 1"
    using sum_list_update_nat [OF assms(3), of credit w']
      sum_update_credit [OF assms(3), of decrementing w']
    by (simp_all add: w'_def credit_def decrementing_def assms(4))
  have "1 \<le> sum_list (map decrementing (workers s))"
    using sum_list_update_nat [OF assms(3), of decrementing w']
    by (simp add: w'_def decrementing_def assms(4))
  moreover have "sint (q_size s) = int (nodes s) - int (uncounted (mpc s)) - int (qh s)
         + int (sum_list (map decrementing (workers s)))"
    using L(4) by (simp add: count_inv_def)
  ultimately have "0 \<le> sint (q_size s)"
    using q uncounted_le [of "mpc s"] by (simp add: linked_def)
  then have d: "sint (q_size s - 1) = sint (q_size s) - 1" by (simp add: sint_pred32)
  have "invariant xs s'"
  proof (rule worker_global [OF assms(1-3) ne s'_def])
    show "worker_inv xs s' w'" by (simp add: w'_def worker_inv_def)
    show "count_inv xs s'"
      using L(4) d unfolding count_inv_def
      by (auto simp: s'_def set_worker_def sums)
  qed (use q in auto)
  then show ?thesis by (simp add: st)
qed

lemma worker_W_add:
  assumes "invariant xs s" "exited s = None" "i < length (workers s)"
    "wpc (workers s ! i) = W_add"
  shows "invariant xs (worker_step i s)"
proof -
  have ne: "wpc (workers s ! i) \<noteq> W_exit" using assms(4) by simp
  note L = worker_live [OF assms(1-3) ne]
  let ?w = "workers s ! i"
  have q: "q_head s = Some (qh s)" "q_tail s = Some (qt s)" "qh s \<le> qt s" "qt s \<le> linked s"
    "linked s \<le> nodes s"
    using L(1) by (simp_all add: queue_inv_def linked_def)
  define w' where "w' = ?w\<lparr>wpc := W_done\<rparr>"
  define s' where "s' = set_worker i w' (s\<lparr>q_head := Some (qh s), q_tail := Some (qt s),
      q_size := q_size s, total_counter := total_counter s + 1\<rparr>)"
  have st: "worker_step i s = s'"
    using assms(4) q by (simp add: worker_step_def Let_def s'_def w'_def set_worker_def)
  have sums: "int (sum_list (map credit ((workers s)[i := w']))) =
        int (sum_list (map credit (workers s))) - 1"
    "sum_list (map decrementing ((workers s)[i := w'])) = sum_list (map decrementing (workers s))"
    using sum_update_credit [OF assms(3), of credit w']
      sum_list_update_nat [OF assms(3), of decrementing w']
    by (simp_all add: w'_def credit_def decrementing_def assms(4))
  have t: "sint (total_counter s) + int (sum_list (map credit (workers s))) =
       int (count_primes (take (qh s) xs))"
    using L(4) by (simp add: count_inv_def)
  have "count_primes (take (qh s) xs) \<le> qh s"
    using count_primes_le [of "take (qh s) xs"] by simp
  moreover have "nodes s \<le> 10000000" using L(2) by (simp add: input_inv_def)
  ultimately have "sint (total_counter s) \<le> 10000000" using t q by linarith
  then have d: "sint (total_counter s + 1) = sint (total_counter s) + 1"
    by (simp add: sint_succ32)
  have "invariant xs s'"
  proof (rule worker_global [OF assms(1-3) ne s'_def])
    show "worker_inv xs s' w'" by (simp add: w'_def worker_inv_def)
    show "count_inv xs s'"
      using L(4) d unfolding count_inv_def
      by (auto simp: s'_def set_worker_def sums)
  qed (use q in auto)
  then show ?thesis by (simp add: st)
qed

lemma worker_preserves:
  assumes "invariant xs s" "exited s = None" "i < length (workers s)"
  shows "invariant xs (worker_step i s)"
proof (cases "wpc (workers s ! i)")
  case W_exit
  then show ?thesis using assms(1) by (simp add: worker_step_def)
qed (simp_all add: assms worker_W_done worker_W_size worker_D_head worker_D_tail worker_D_next
    worker_D_check worker_D_help worker_D_value worker_D_cas worker_D_dec worker_W_num
    worker_W_sleep worker_W_add)

lemma step_preserves: "invariant xs s \<Longrightarrow> invariant xs (step t s)"
  by (cases t) (simp_all add: step_def main_preserves worker_preserves)

lemma exec_preserves: "invariant xs s \<Longrightarrow> invariant xs (exec ts s)"
  by (induction ts arbitrary: s) (simp_all add: step_preserves)

lemma invariant_run: "invariant xs (run limit numCPU xs sched)"
  unfolding run_def by (rule exec_preserves) (rule invariant_start)

section \<open>Backpressure\<close>

lemma main_P_wait_step:
  "mpc s = P_wait \<Longrightarrow> exited s = None \<Longrightarrow>
   step Main s = (if sint (q_size s) < sint MAX_QUEUE_SIZE then s\<lparr>mpc := P_alloc\<rparr> else s)"
  by (simp add: step_def main_step_def)

text \<open>
  Claim C8. \<open>main\<close> leaves the backpressure loop (\<open>P_wait\<close>) only on a load of \<open>size\<close> that
  is strictly below \<open>MAX_QUEUE_SIZE\<close>; from there until its own increment of \<open>size\<close>
  (\<open>admitted\<close>) the counter stays strictly below the bound, and in every state of every run
  \<open>size\<close> is at most \<open>MAX_QUEUE_SIZE\<close>.
\<close>

theorem backpressure_bound:
  "sint (q_size (run limit numCPU xs sched)) \<le> sint MAX_QUEUE_SIZE \<and>
   (exited (run limit numCPU xs sched) = None \<and> admitted (mpc (run limit numCPU xs sched)) \<longrightarrow>
      sint (q_size (run limit numCPU xs sched)) < sint MAX_QUEUE_SIZE) \<and>
   (mpc s = P_wait \<and> exited s = None \<longrightarrow>
      step Main s = (if sint (q_size s) < sint MAX_QUEUE_SIZE then s\<lparr>mpc := P_alloc\<rparr> else s))"
proof (intro conjI impI)
  let ?s = "run limit numCPU xs sched"
  have i: "invariant xs ?s" by (rule invariant_run)
  then show "sint (q_size ?s) \<le> sint MAX_QUEUE_SIZE"
    by (simp add: invariant_def report_inv_def MAX_QUEUE_SIZE_def)
  assume a: "exited ?s = None \<and> admitted (mpc ?s)"
  then have "mpc ?s \<noteq> P_end" by auto
  then have "count_inv xs ?s" using i a by (simp add: invariant_def live_inv_def)
  then show "sint (q_size ?s) < sint MAX_QUEUE_SIZE"
    using a by (simp add: count_inv_def MAX_QUEUE_SIZE_def)
next
  assume "mpc s = P_wait \<and> exited s = None"
  then show "step Main s = (if sint (q_size s) < sint MAX_QUEUE_SIZE then s\<lparr>mpc := P_alloc\<rparr> else s)"
    by (simp add: main_P_wait_step)
qed

theorem backpressure_bound_witness:
  "sint (q_size (run 8 2 [5, 4] [Main, Main, Main])) < sint MAX_QUEUE_SIZE \<and>
   exited (run 8 2 [5, 4] [Main, Main, Main]) = None \<and>
   admitted (mpc (run 8 2 [5, 4] [Main, Main, Main])) \<and>
   step Main (run 8 2 [5, 4] [Main]) = (run 8 2 [5, 4] [Main])\<lparr>mpc := P_alloc\<rparr>"
proof -
  have a: "exited (run 8 2 [5, 4] [Main, Main, Main]) = None"
    "mpc (run 8 2 [5, 4] [Main, Main, Main]) = P_store"
    "mpc (run 8 2 [5, 4] [Main]) = P_wait" "exited (run 8 2 [5, 4] [Main]) = None"
    "q_size (run 8 2 [5, 4] [Main]) = 0"
    by code_simp+
  show ?thesis
    using backpressure_bound [of 8 2 "[5, 4]" "[Main, Main, Main]" "run 8 2 [5, 4] [Main]"] a
    by (simp add: MAX_QUEUE_SIZE_def)
qed

lemma node_at_frame [simp]:
  "node_at (m\<lparr>q_tail := a\<rparr>) p = node_at m p" "node_at (m\<lparr>q_head := b\<rparr>) p = node_at m p"
  "node_at (m\<lparr>q_size := c\<rparr>) p = node_at m p"
  by (cases p; simp add: node_at_def)+

lemma dequeue_cases:
  assumes "dequeue m = Some y"
  shows "dequeue_post m y"
proof (rule dequeue.raw_induct [where P = dequeue_post, OF _ assms], unfold dequeue_post_def)
  fix dq :: "'a memory_scheme \<Rightarrow> (error + dequeue_result \<times> 'a memory_scheme) option"
  fix m :: "'a memory_scheme" and y
  assume IH: "\<And>x y. dq x = Some y \<Longrightarrow>
        (\<forall>m'. y = Inr (Empty, m') \<longrightarrow> m' = x \<and> queue_empty x) \<and>
        (\<forall>v a m'. y = Inr (Dequeued v a, m') \<longrightarrow>
            a = q_head x \<and> q_size m' = q_size x - 1 \<and> heap m' = heap x \<and>
            heap_limit m' = heap_limit x \<and>
            (\<exists>hn nn. node_at x (q_head x) = Some hn \<and> q_head m' = node_next hn \<and>
               node_at x (node_next hn) = Some nn \<and> node_value nn = Some v))"
  assume body: "(let head = q_head m; tail = q_tail m in
      case node_at m head of
        None \<Rightarrow> Some (Inl InvalidPointer)
      | Some hn \<Rightarrow>
          let next = node_next hn in
          if head = q_head m then
            (if head = tail then
               (if next = None then Some (Inr (Empty, m))
                else dq (if q_tail m = tail then m\<lparr>q_tail := next\<rparr> else m))
             else
               (case node_at m next of
                  None \<Rightarrow> Some (Inl InvalidPointer)
                | Some nn \<Rightarrow>
                    (case node_value nn of
                       None \<Rightarrow> Some (Inl UninitializedRead)
                     | Some v \<Rightarrow>
                         if q_head m = head
                         then Some (Inr (Dequeued v head,
                                         m\<lparr>q_head := next, q_size := q_size m - 1\<rparr>))
                         else dq m)))
          else dq m) = Some y"
  show "(\<forall>m'. y = Inr (Empty, m') \<longrightarrow> m' = m \<and> queue_empty m) \<and>
        (\<forall>v a m'. y = Inr (Dequeued v a, m') \<longrightarrow>
            a = q_head m \<and> q_size m' = q_size m - 1 \<and> heap m' = heap m \<and>
            heap_limit m' = heap_limit m \<and>
            (\<exists>hn nn. node_at m (q_head m) = Some hn \<and> q_head m' = node_next hn \<and>
               node_at m (node_next hn) = Some nn \<and> node_value nn = Some v))"
  proof (cases "node_at m (q_head m)")
    case None
    then show ?thesis using body by (auto simp: Let_def)
  next
    case (Some hn)
    show ?thesis
    proof (cases "q_head m = q_tail m")
      case True
      show ?thesis
      proof (cases "node_next hn = None")
        case nx: True
        then have "y = Inr (Empty, m)" using body Some True by (auto simp: Let_def)
        then show ?thesis using Some True nx by (simp add: queue_empty_def)
      next
        case nx: False
        let ?m2 = "m\<lparr>q_tail := node_next hn\<rparr>"
        have "dq ?m2 = Some y" using body Some True nx by (auto simp: Let_def)
        note r = IH [OF this]
        have ne: "\<not> queue_empty ?m2" using Some nx by (simp add: queue_empty_def)
        have e: "\<forall>m'. y \<noteq> Inr (Empty, m')" using r ne by blast
        have sel: "q_head ?m2 = q_head m" "q_size ?m2 = q_size m" "heap ?m2 = heap m"
          "heap_limit ?m2 = heap_limit m" "\<And>p. node_at ?m2 p = node_at m p"
          by simp_all
        note d = conjunct2 [OF r, unfolded sel]
        show ?thesis using e d by blast
      qed
    next
      case False
      show ?thesis
      proof (cases "node_at m (node_next hn)")
        case None
        then show ?thesis using body Some False by (auto simp: Let_def)
      next
        case nn: (Some nn)
        show ?thesis
        proof (cases "node_value nn")
          case None
          then show ?thesis using body Some False nn by (auto simp: Let_def)
        next
          case v: (Some v)
          then have "y = Inr (Dequeued v (q_head m),
              m\<lparr>q_head := node_next hn, q_size := q_size m - 1\<rparr>)"
            using body Some False nn by (auto simp: Let_def)
          then show ?thesis using Some nn v by simp
        qed
      qed
    qed
  qed
qed

lemma enqueue_loop_cases:
  assumes "enqueue_loop newNode m = Some y"
  shows "enqueue_post m y"
proof (rule enqueue_loop.raw_induct [where P = "\<lambda>n. enqueue_post", OF _ assms],
    unfold enqueue_post_def)
  fix el :: "nat \<Rightarrow> 'a memory_scheme \<Rightarrow> (error + 'a memory_scheme) option"
  fix newNode and m :: "'a memory_scheme" and y
  assume IH: "\<And>n x y. el n x = Some y \<Longrightarrow>
        \<forall>m'. y = Inr m' \<longrightarrow> q_size m' = q_size x + 1 \<and> length (heap m') = length (heap x) \<and>
         q_head m' = q_head x \<and> heap_limit m' = heap_limit x"
  assume body: "(let tail = q_tail m in
      case node_at m tail of
        None \<Rightarrow> Some (Inl InvalidPointer)
      | Some tn \<Rightarrow>
          let next = node_next tn in
          if tail = q_tail m then
            (if next = None then
               (case node_at m tail of
                  None \<Rightarrow> Some (Inl InvalidPointer)
                | Some tn' \<Rightarrow>
                    if node_next tn' = next then
                      (let m1 = set_node (the tail) (tn'\<lparr>node_next := Some newNode\<rparr>) m;
                           m2 = (if q_tail m1 = tail then m1\<lparr>q_tail := Some newNode\<rparr> else m1)
                       in Some (Inr (m2\<lparr>q_size := q_size m2 + 1\<rparr>)))
                    else el newNode m)
             else el newNode (if q_tail m = tail then m\<lparr>q_tail := next\<rparr> else m))
          else el newNode m) = Some y"
  show "\<forall>m'. y = Inr m' \<longrightarrow> q_size m' = q_size m + 1 \<and> length (heap m') = length (heap m) \<and>
         q_head m' = q_head m \<and> heap_limit m' = heap_limit m"
  proof (cases "node_at m (q_tail m)")
    case None
    then show ?thesis using body by (auto simp: Let_def)
  next
    case (Some tn)
    show ?thesis
    proof (cases "node_next tn = None")
      case True
      then show ?thesis using body Some by (auto simp: Let_def set_node_def)
    next
      case False
      then have "el newNode (m\<lparr>q_tail := node_next tn\<rparr>) = Some y"
        using body Some by (auto simp: Let_def)
      from IH [OF this] show ?thesis by auto
    qed
  qed
qed

lemma createQueue_is_queue:
  assumes "heap m = []" "0 < heap_limit m"
  shows "\<exists>m'. createQueue m = Inr m' \<and> is_queue [] 0 m' \<and> heap_limit m' = heap_limit m"
  using assms
  by (simp add: createQueue_def malloc_node_def is_queue_def shaped_def cell_def)

lemma is_queue_node:
  assumes "is_queue vs h m" "a \<le> length vs"
  shows "node_at m (Some a) = cell vs (length vs) a"
  using assms shaped_nth [of vs "length vs" "heap m" a]
  by (simp add: is_queue_def node_at_def)

lemma enqueue_is_queue:
  assumes q: "is_queue vs h m" and room: "Suc (length vs) < heap_limit m"
  shows "\<exists>m'. enqueue v m = Some (Inr m') \<and> is_queue (vs @ [v]) h m' \<and>
           heap_limit m' = heap_limit m"
proof -
  define n where "n = length vs"
  have len: "length (heap m) = Suc n" and tl: "q_tail m = Some n"
    and sh: "\<forall>a < Suc n. heap m ! a = cell vs n a"
    using q by (simp_all add: is_queue_def n_def shaped_def)
  define new where "new = Some \<lparr>node_value = Some v, node_next = None\<rparr>"
  define m2 where "m2 = m\<lparr>heap := heap m @ [new]\<rparr>"
  have "(heap m @ [Some \<lparr>node_value = None, node_next = None\<rparr>])[length (heap m) := new] =
      heap m @ [new]" by simp
  then have e1: "enqueue v m = enqueue_loop (Suc n) m2"
    using room len
    by (simp add: enqueue_def malloc_node_def set_node_def m2_def new_def [symmetric] n_def [symmetric])
  have hn: "heap m ! n = cell vs n n" using sh by simp
  have na: "node_at m2 (Some n) = cell vs n n"
    using len hn by (simp add: node_at_def m2_def nth_append)
  define tn where "tn = the (cell vs n n)"
  have tn: "cell vs n n = Some tn" "node_next tn = None" by (simp_all add: tn_def cell_def)
  define m' where "m' = m2\<lparr>heap := (heap m2)[n := Some (tn\<lparr>node_next := Some (Suc n)\<rparr>)],
      q_tail := Some (Suc n), q_size := q_size m + 1\<rparr>"
  have e2: "enqueue_loop (Suc n) m2 = Some (Inr m')"
    apply (subst enqueue_loop.simps)
    using na tn tl by (simp add: Let_def m2_def set_node_def m'_def)
  have hp: "heap m' = (heap m @ [new])[n := Some (tn\<lparr>node_next := Some (Suc n)\<rparr>)]"
    by (simp add: m'_def m2_def)
  have "shaped (vs @ [v]) (Suc n) (heap m')"
    unfolding shaped_def
  proof (intro allI impI)
    fix a assume "a < length (heap m')"
    then have a: "a < Suc (Suc n)" by (simp add: hp len)
    consider "a < n" | "a = n" | "a = Suc n" using a by linarith
    then show "heap m' ! a = cell (vs @ [v]) (Suc n) a"
    proof cases
      case 1
      then have "heap m' ! a = cell vs n a" using sh len by (simp add: hp nth_append)
      moreover have "a - 1 < length vs" using 1 by (simp add: n_def)
      ultimately show ?thesis using 1 by (simp add: cell_def nth_append n_def)
    next
      case 2
      then show ?thesis
        using len tn(1) by (auto simp: hp cell_def nth_append n_def tn_def)
    next
      case 3
      then show ?thesis using len by (simp add: hp cell_def nth_append n_def new_def)
    qed
  qed
  then have "is_queue (vs @ [v]) h m'"
    using q len by (simp add: is_queue_def hp n_def m'_def m2_def)
  moreover have "heap_limit m' = heap_limit m" by (simp add: m'_def m2_def)
  ultimately show ?thesis using e1 e2 by simp
qed

lemma dequeue_is_queue_empty:
  assumes "is_queue vs h m" "h = length vs"
  shows "dequeue m = Some (Inr (Empty, m))"
proof -
  have "node_at m (Some h) = cell vs (length vs) h" using is_queue_node [OF assms(1)] assms(2) by simp
  then show ?thesis
    using assms by (subst dequeue.simps) (simp add: Let_def is_queue_def cell_def)
qed

lemma dequeue_is_queue_value:
  assumes q: "is_queue vs h m" and h: "h < length vs"
  shows "\<exists>m'. dequeue m = Some (Inr (Dequeued (vs ! h) (Some h), m')) \<and> is_queue vs (Suc h) m' \<and>
           heap_limit m' = heap_limit m"
proof -
  have a: "node_at m (Some h) = cell vs (length vs) h"
    "node_at m (Some (Suc h)) = cell vs (length vs) (Suc h)"
    using is_queue_node [OF q] h by simp_all
  define m' where "m' = m\<lparr>q_head := Some (Suc h), q_size := q_size m - 1\<rparr>"
  have "dequeue m = Some (Inr (Dequeued (vs ! h) (Some h), m'))"
    using q h a by (subst dequeue.simps) (simp add: Let_def is_queue_def cell_def m'_def)
  moreover have "is_queue vs (Suc h) m'" using q h by (simp add: is_queue_def m'_def)
  ultimately show ?thesis by (simp add: m'_def)
qed

lemma chain_values_is_queue:
  assumes "is_queue vs h m"
  shows "a \<le> length vs \<Longrightarrow> chain_values k m (Some a) = take k (drop a vs)"
proof (induction k arbitrary: a)
  case 0
  then show ?case by simp
next
  case (Suc k)
  have na: "node_at m (Some a) = cell vs (length vs) a" using is_queue_node [OF assms Suc.prems] .
  show ?case
  proof (cases "a < length vs")
    case False
    then show ?thesis using na by (simp add: cell_def node_at_def)
  next
    case True
    then have nb: "node_at m (Some (Suc a)) = cell vs (length vs) (Suc a)"
      using is_queue_node [OF assms, of "Suc a"] by simp
    have "drop a vs = vs ! a # drop (Suc a) vs" using True by (simp add: Cons_nth_drop_Suc)
    then show ?thesis using na nb True Suc.IH [of "Suc a"] by (simp add: cell_def)
  qed
qed

lemma unconsumed_is_queue:
  assumes "is_queue vs h m"
  shows "unconsumed m = drop h vs"
proof -
  have "h \<le> length vs" "q_head m = Some h" "length (heap m) = Suc (length vs)"
    using assms by (simp_all add: is_queue_def)
  then show ?thesis using chain_values_is_queue [OF assms, of h "Suc (length vs)"]
    by (simp add: unconsumed_def)
qed

lemma queue_empty_is_queue:
  assumes "is_queue vs h m"
  shows "queue_empty m \<longleftrightarrow> h = length vs"
  using assms is_queue_node [OF assms, of h]
  by (auto simp: queue_empty_def is_queue_def cell_def)

lemma queue_empty_dequeue:
  assumes "queue_empty m"
  shows "dequeue m = Some (Inr (Empty, m))"
  using assms
  by (subst dequeue.simps) (auto simp: queue_empty_def Let_def split: option.splits)

lemma q_size_is_queue:
  assumes "is_queue vs h m"
  shows "q_size m = of_nat (length (drop h vs))"
  using assms by (simp add: is_queue_def)

section \<open>The queue, run by one thread\<close>

lemma enqueue_size:
  assumes "enqueue v m = Some (Inr m')"
  shows "q_size m' = q_size m + 1"
proof -
  obtain n m1 where a: "malloc_node m = Some (n, m1)"
    using assms by (auto simp: enqueue_def split: option.splits)
  let ?m2 = "set_node n \<lparr>node_value = Some v, node_next = None\<rparr> m1"
  have "enqueue_loop n ?m2 = Some (Inr m')" using assms a by (simp add: enqueue_def)
  from enqueue_loop_cases [OF this] have "q_size m' = q_size ?m2 + 1"
    by (simp add: enqueue_post_def)
  moreover have "q_size ?m2 = q_size m"
    using a by (auto simp: malloc_node_def set_node_def split: if_splits)
  ultimately show ?thesis by simp
qed

lemma enqueue_room:
  assumes "enqueue v m = Some (Inr m')"
  shows "length (heap m) < heap_limit m"
  using assms by (auto simp: enqueue_def malloc_node_def split: if_splits)

lemma run_ops_refines:
  "is_queue vs h m \<Longrightarrow> run_ops ops m = Some (Inr (rs, m')) \<Longrightarrow>
     map taken rs = fst (fifo_spec ops (drop h vs)) \<and>
     (\<exists>vs' h'. is_queue vs' h' m' \<and> drop h' vs' = snd (fifo_spec ops (drop h vs)))"
proof (induction ops arbitrary: vs h m rs)
  case Nil
  then show ?case by auto
next
  case (Cons op ops)
  show ?case
  proof (cases op)
    case (Enq v)
    then obtain m1 where e: "enqueue v m = Some (Inr m1)" and r: "run_ops ops m1 = Some (Inr (rs, m'))"
      using Cons.prems(2) by (auto split: option.splits sum.splits)
    have "Suc (length vs) < heap_limit m"
      using enqueue_room [OF e] Cons.prems(1) by (simp add: is_queue_def)
    from enqueue_is_queue [OF Cons.prems(1) this, of v] e
    have q1: "is_queue (vs @ [v]) h m1" by simp
    have "h \<le> length vs" using Cons.prems(1) by (simp add: is_queue_def)
    then have "drop h (vs @ [v]) = drop h vs @ [v]" by simp
    then show ?thesis using Cons.IH [OF q1 r] Enq by simp
  next
    case Deq
    then obtain r m1 rs1 where d: "dequeue m = Some (Inr (r, m1))"
      and r1: "run_ops ops m1 = Some (Inr (rs1, m'))" and rs: "rs = r # rs1"
      using Cons.prems(2) by (auto split: option.splits sum.splits prod.splits)
    have hl: "h \<le> length vs" using Cons.prems(1) by (simp add: is_queue_def)
    show ?thesis
    proof (cases "h = length vs")
      case True
      then have "r = Empty" "m1 = m" using dequeue_is_queue_empty [OF Cons.prems(1)] d by simp_all
      then show ?thesis using Cons.IH [OF Cons.prems(1), of rs1] r1 rs True Deq by simp
    next
      case False
      then have lt: "h < length vs" using hl by simp
      from dequeue_is_queue_value [OF Cons.prems(1) lt] d
      have q1: "is_queue vs (Suc h) m1" and rr: "r = Dequeued (vs ! h) (Some h)" by auto
      have "drop h vs = vs ! h # drop (Suc h) vs" using lt by (simp add: Cons_nth_drop_Suc)
      then show ?thesis using Cons.IH [OF q1 r1] rs rr Deq by simp
    qed
  qed
qed

lemma run_ops_returns:
  "is_queue vs h m \<Longrightarrow> length vs + enqueues ops < heap_limit m \<Longrightarrow>
     \<exists>rs m'. run_ops ops m = Some (Inr (rs, m'))"
proof (induction ops arbitrary: vs h m)
  case Nil
  then show ?case by simp
next
  case (Cons op ops)
  show ?case
  proof (cases op)
    case (Enq v)
    have "Suc (length vs) < heap_limit m" using Cons.prems(2) Enq by simp
    from enqueue_is_queue [OF Cons.prems(1) this, of v]
    obtain m1 where e: "enqueue v m = Some (Inr m1)" and q1: "is_queue (vs @ [v]) h m1"
      and l: "heap_limit m1 = heap_limit m" by auto
    have "length (vs @ [v]) + enqueues ops < heap_limit m1" using Cons.prems(2) Enq l by simp
    from Cons.IH [OF q1 this] show ?thesis using e Enq by simp
  next
    case Deq
    show ?thesis
    proof (cases "h = length vs")
      case True
      have d: "dequeue m = Some (Inr (Empty, m))"
        using dequeue_is_queue_empty [OF Cons.prems(1) True] .
      from Cons.IH [OF Cons.prems(1)] Cons.prems(2) Deq
      obtain rs m' where "run_ops ops m = Some (Inr (rs, m'))" by auto
      then show ?thesis using d Deq by simp
    next
      case False
      then have lt: "h < length vs" using Cons.prems(1) by (simp add: is_queue_def)
      from dequeue_is_queue_value [OF Cons.prems(1) lt]
      obtain m1 where d: "dequeue m = Some (Inr (Dequeued (vs ! h) (Some h), m1))"
        and q1: "is_queue vs (Suc h) m1" and l: "heap_limit m1 = heap_limit m" by auto
      have "length vs + enqueues ops < heap_limit m1" using Cons.prems(2) Deq l by simp
      from Cons.IH [OF q1 this]
      obtain rs m' where "run_ops ops m1 = Some (Inr (rs, m'))" by auto
      then show ?thesis using d Deq by simp
    qed
  qed
qed

lemma fifo_spec_enqueues: "fifo_spec (map Enq vs @ ops) q = fifo_spec ops (q @ vs)"
  by (induction vs arbitrary: q) simp_all

lemma fifo_spec_dequeues: "fifo_spec (replicate (length q) Deq) q = (map Some q, [])"
  by (induction q) simp_all

lemma enqueues_append: "enqueues (ops @ ops') = enqueues ops + enqueues ops'"
  by (induction ops rule: enqueues.induct) simp_all

lemma enqueues_map_Enq: "enqueues (map Enq vs) = length vs"
  by (induction vs) simp_all

lemma enqueues_replicate_Deq: "enqueues (replicate k Deq) = 0"
  by (induction k) simp_all

text \<open>
  \<open>dequeue\<close> called with no other thread running: it takes the empty path exactly when
  head equals tail and head's next is null, which for a queue built by enqueues is when
  no value is waiting, and then it leaves the memory as it is.
\<close>

lemma dequeue_alone:
  "((\<exists>m'. dequeue m = Some (Inr (Empty, m'))) \<longleftrightarrow> queue_empty m) \<and>
   (\<forall>m'. dequeue m = Some (Inr (Empty, m')) \<longrightarrow> m' = m) \<and>
   (is_queue vs h m \<longrightarrow> (queue_empty m \<longleftrightarrow> unconsumed m = []))"
proof (intro conjI allI impI)
  show "(\<exists>m'. dequeue m = Some (Inr (Empty, m'))) \<longleftrightarrow> queue_empty m"
  proof
    assume "\<exists>m'. dequeue m = Some (Inr (Empty, m'))"
    then obtain m' where "dequeue m = Some (Inr (Empty, m'))" by blast
    from dequeue_cases [OF this] show "queue_empty m" by (simp add: dequeue_post_def)
  next
    assume "queue_empty m"
    then show "\<exists>m'. dequeue m = Some (Inr (Empty, m'))" using queue_empty_dequeue by blast
  qed
next
  fix m' assume "dequeue m = Some (Inr (Empty, m'))"
  from dequeue_cases [OF this] show "m' = m" by (simp add: dequeue_post_def)
next
  assume q: "is_queue vs h m"
  then have "h \<le> length vs" by (simp add: is_queue_def)
  then show "queue_empty m \<longleftrightarrow> unconsumed m = []"
    using queue_empty_is_queue [OF q] unconsumed_is_queue [OF q] by auto
qed

lemma sint_of_nat32: "k < 2 ^ 31 \<Longrightarrow> sint (of_nat k :: cint) = int k"
proof -
  assume a: "k < 2 ^ 31"
  have "sint (of_nat k :: cint) = sint (word_of_int (int k) :: cint)" by simp
  also have "\<dots> = signed_take_bit 31 (int k)" by (simp only: sint_sbintrunc') simp
  also have "\<dots> = int k" using a by (intro signed_take_bit_int_eq_self) simp_all
  finally show ?thesis .
qed

text \<open>
  Claim C7. A successful \<open>enqueue\<close> leaves \<open>size\<close> one higher, a \<open>dequeue\<close> that returns a
  value one lower, a \<open>dequeue\<close> that returns Empty as it was. So after \<open>createQueue\<close> and
  any sequence of completed calls by one thread, \<open>size\<close> is the number of values waiting in
  the queue (as a 32-bit number; read as a signed \<open>int\<close> it is that number while fewer
  than \<open>2^31\<close> values wait).
\<close>

theorem size_mirrors_operations:
  "(\<forall>m'. enqueue v m = Some (Inr m') \<longrightarrow> q_size m' = q_size m + 1) \<and>
   (\<forall>w a m'. dequeue m = Some (Inr (Dequeued w a, m')) \<longrightarrow> q_size m' = q_size m - 1) \<and>
   (\<forall>m'. dequeue m = Some (Inr (Empty, m')) \<longrightarrow> q_size m' = q_size m) \<and>
   (\<forall>m1 rs m2. heap m0 = [] \<and> createQueue m0 = Inr m1 \<and> run_ops ops m1 = Some (Inr (rs, m2)) \<longrightarrow>
      q_size m2 = of_nat (length (unconsumed m2)) \<and>
      (length (unconsumed m2) < 2 ^ 31 \<longrightarrow> sint (q_size m2) = int (length (unconsumed m2))))"
proof (intro conjI allI impI)
  fix m' assume "enqueue v m = Some (Inr m')"
  then show "q_size m' = q_size m + 1" by (rule enqueue_size)
next
  fix w a m' assume "dequeue m = Some (Inr (Dequeued w a, m'))"
  from dequeue_cases [OF this] show "q_size m' = q_size m - 1" by (simp add: dequeue_post_def)
next
  fix m' assume "dequeue m = Some (Inr (Empty, m'))"
  from dequeue_cases [OF this] show "q_size m' = q_size m" by (simp add: dequeue_post_def)
next
  fix m1 rs m2
  assume a: "heap m0 = [] \<and> createQueue m0 = Inr m1 \<and> run_ops ops m1 = Some (Inr (rs, m2))"
  then have "0 < heap_limit m0" by (auto simp: createQueue_def malloc_node_def split: if_splits)
  from createQueue_is_queue [OF _ this] a have "is_queue [] 0 m1" by auto
  from run_ops_refines [OF this] a obtain vs h where q: "is_queue vs h m2" by blast
  show s: "q_size m2 = of_nat (length (unconsumed m2))"
    using q_size_is_queue [OF q] unconsumed_is_queue [OF q] by simp
  assume "length (unconsumed m2) < 2 ^ 31"
  then show "sint (q_size m2) = int (length (unconsumed m2))"
    unfolding s by (rule sint_of_nat32)
qed

theorem size_mirrors_operations_witness:
  "(\<exists>m1. enqueue 5 \<lparr>heap = [Some \<lparr>node_value = None, node_next = None\<rparr>], heap_limit = 4,
        q_head = Some 0, q_tail = Some 0, q_size = 0, pool_index = 0, pool_nodes = (\<lambda>_. None)\<rparr> =
        Some (Inr m1) \<and> q_size m1 = 1 \<and>
      (\<exists>a m2. dequeue m1 = Some (Inr (Dequeued 5 a, m2)) \<and> q_size m2 = 0 \<and>
         (\<exists>m3. dequeue m2 = Some (Inr (Empty, m3)) \<and> q_size m3 = 0))) \<and>
   (\<exists>rs m4. run_ops [Enq 5, Enq 6, Deq]
        \<lparr>heap = [Some \<lparr>node_value = None, node_next = None\<rparr>], heap_limit = 4,
        q_head = Some 0, q_tail = Some 0, q_size = 0, pool_index = 0, pool_nodes = (\<lambda>_. None)\<rparr> =
        Some (Inr (rs, m4)) \<and> unconsumed m4 = [6] \<and> sint (q_size m4) = 1)"
proof -
  let ?m = "\<lparr>heap = [Some \<lparr>node_value = None, node_next = None\<rparr>], heap_limit = 4,
        q_head = Some 0, q_tail = Some 0, q_size = 0, pool_index = 0, pool_nodes = (\<lambda>_. None)\<rparr>"
  have c: "createQueue (empty_memory 4) = Inr ?m"
    by (simp add: createQueue_def malloc_node_def empty_memory_def)
  have h: "heap (empty_memory 4) = []" by (simp add: empty_memory_def)
  have q: "is_queue [] 0 ?m" by (simp add: is_queue_def shaped_def cell_def)
  from enqueue_is_queue [OF q, of 5]
  obtain m1 where e1: "enqueue 5 ?m = Some (Inr m1)" and q1: "is_queue [5] 0 m1" by auto
  from dequeue_is_queue_value [OF q1]
  obtain m2 where d2: "dequeue m1 = Some (Inr (Dequeued 5 (Some 0), m2))"
    and q2: "is_queue [5] 1 m2" by auto
  from dequeue_is_queue_empty [OF q2] have d3: "dequeue m2 = Some (Inr (Empty, m2))" by simp
  have z: "q_size ?m = 0" by simp
  have a1: "q_size m1 = 1"
    using size_mirrors_operations [of 5 ?m "empty_memory 4" "[]"] e1 z by simp
  have a2: "q_size m2 = 0"
    using size_mirrors_operations [of 5 m1 "empty_memory 4" "[]"] d2 a1 by simp
  have a3: "q_size m2 = 0 \<longrightarrow> q_size m2 = 0"
    using size_mirrors_operations [of 5 m2 "empty_memory 4" "[]"] d3 by simp
  have "length ([] :: cint list) + enqueues [Enq 5, Enq 6, Deq] < heap_limit ?m" by simp
  from run_ops_returns [OF q this]
  obtain rs m4 where r: "run_ops [Enq 5, Enq 6, Deq] ?m = Some (Inr (rs, m4))" by blast
  from run_ops_refines [OF q r]
  obtain vs' h' where q4: "is_queue vs' h' m4" and "drop h' vs' = [6]" by auto
  then have u: "unconsumed m4 = [6]" using unconsumed_is_queue [OF q4] by simp
  have "sint (q_size m4) = 1"
    using size_mirrors_operations [of 5 ?m "empty_memory 4" "[Enq 5, Enq 6, Deq]"] h c r u
    by simp
  then show ?thesis using e1 d2 d3 a1 a2 r u by blast
qed

text \<open>
  The queue used by one thread, its calls one after the other. After \<open>createQueue\<close>, any
  sequence of enqueues and dequeues that the heap has room for runs to its end and
  returns, dequeue by dequeue, what the first-in first-out list \<open>fifo_spec\<close> returns,
  leaving the same values waiting.
\<close>

lemma run_ops_is_fifo:
  assumes "heap m0 = []" "createQueue m0 = Inr m" "enqueues ops < heap_limit m0"
    "length vs < heap_limit m0"
  shows "(\<exists>rs m'. run_ops ops m = Some (Inr (rs, m')) \<and>
            map taken rs = fst (fifo_spec ops []) \<and> unconsumed m' = snd (fifo_spec ops [])) \<and>
         (\<exists>rs m'. run_ops (map Enq vs @ replicate (length vs) Deq @ [Deq]) m = Some (Inr (rs, m')) \<and>
            map taken rs = map Some vs @ [None] \<and> unconsumed m' = [])"
proof -
  have "0 < heap_limit m0" using assms(3) by simp
  from createQueue_is_queue [OF assms(1) this] assms(2)
  have q: "is_queue [] 0 m" and l: "heap_limit m = heap_limit m0" by auto
  have general: "\<exists>rs m'. run_ops os m = Some (Inr (rs, m')) \<and>
            map taken rs = fst (fifo_spec os []) \<and> unconsumed m' = snd (fifo_spec os [])"
    if "enqueues os < heap_limit m0" for os
  proof -
    have "length ([] :: cint list) + enqueues os < heap_limit m" using that l by simp
    from run_ops_returns [OF q this]
    obtain rs m' where r: "run_ops os m = Some (Inr (rs, m'))" by blast
    from run_ops_refines [OF q r]
    obtain vs' h' where "map taken rs = fst (fifo_spec os [])" "is_queue vs' h' m'"
      "drop h' vs' = snd (fifo_spec os [])" by auto
    then show ?thesis using r unconsumed_is_queue [of vs' h' m'] by auto
  qed
  let ?os = "map Enq vs @ replicate (length vs) Deq @ [Deq]"
  have "enqueues ?os = length vs"
    by (simp add: enqueues_append enqueues_map_Enq enqueues_replicate_Deq)
  moreover have "fifo_spec ?os [] = (map Some vs @ [None], [])"
  proof -
    have "fifo_spec (replicate (length vs) Deq @ [Deq]) vs = (map Some vs @ [None], [])"
      by (induction vs) simp_all
    then show ?thesis by (simp add: fifo_spec_enqueues)
  qed
  ultimately show ?thesis using general [of ops] general [of ?os] assms(3,4) by simp
qed

section \<open>The value \<open>-1\<close>\<close>







section \<open>What one step touches\<close>

lemma worker_step_heap: "heap (worker_step i s) = heap s"
  by (cases "wpc (workers s ! i)")
    (simp_all add: worker_step_def Let_def set_worker_def split: option.splits)

lemma worker_step_mpc: "mpc (worker_step i s) = mpc s"
  by (cases "wpc (workers s ! i)")
    (simp_all add: worker_step_def Let_def set_worker_def split: option.splits)

lemma worker_step_stdout: "stdout (worker_step i s) = stdout s"
  by (cases "wpc (workers s ! i)")
    (simp_all add: worker_step_def Let_def set_worker_def split: option.splits)

lemma worker_step_done: "done_flag (worker_step i s) = done_flag s"
  by (cases "wpc (workers s ! i)")
    (simp_all add: worker_step_def Let_def set_worker_def split: option.splits)

lemma worker_step_q_head:
  "q_head (worker_step i s) =
     (if wpc (workers s ! i) = D_cas \<and> q_head s = d_head (workers s ! i)
      then d_next (workers s ! i) else q_head s)"
  by (cases "wpc (workers s ! i)")
    (simp_all add: worker_step_def Let_def set_worker_def split: option.splits)

lemma worker_step_q_tail:
  "q_tail (worker_step i s) =
     (if wpc (workers s ! i) = D_help \<and> q_tail s = d_tail (workers s ! i)
      then d_next (workers s ! i) else q_tail s)"
  by (cases "wpc (workers s ! i)")
    (simp_all add: worker_step_def Let_def set_worker_def split: option.splits)

lemma worker_step_q_size:
  "q_size (worker_step i s) =
     (if wpc (workers s ! i) = D_dec then q_size s - 1 else q_size s)"
  by (cases "wpc (workers s ! i)")
    (simp_all add: worker_step_def Let_def set_worker_def split: option.splits)

lemma worker_step_length: "length (workers (worker_step i s)) = length (workers s)"
  by (cases "wpc (workers s ! i)")
    (simp_all add: worker_step_def Let_def set_worker_def split: option.splits)

lemma worker_step_other:
  assumes "j \<noteq> i"
  shows "workers (worker_step i s) ! j = workers s ! j"
proof -
  have "\<exists>w'. workers (worker_step i s) = (workers s)[i := w'] \<or>
      workers (worker_step i s) = workers s"
    by (cases "wpc (workers s ! i)")
      (auto simp: worker_step_def Let_def set_worker_def split: option.splits)
  then show ?thesis using assms by auto
qed

lemma main_step_workers:
  assumes "invariant xs s" "exited s = None"
  shows "workers (main_step s) = workers s"
proof (cases "mpc s = P_free")
  case True
  then show ?thesis using main_P_free_step [OF assms True] by (simp add: free_node_def)
next
  case False
  then show ?thesis
    by (cases "mpc s")
      (simp_all add: main_step_def allocateNode_def Let_def malloc_node_def set_node_def
        split: list.splits option.splits sum.splits)
qed

lemma main_step_q_head:
  "mpc s \<noteq> P_free \<Longrightarrow> q_head (main_step s) = q_head s"
  by (cases "mpc s")
    (simp_all add: main_step_def allocateNode_def Let_def malloc_node_def set_node_def
      split: list.splits option.splits sum.splits)

lemma main_step_mpc_back:
  assumes "invariant xs s" "exited s = None" "mpc (main_step s) \<in> {P_free, P_end}"
  shows "mpc s \<in> {P_print, P_free, P_end}"
proof (cases "mpc s = P_free")
  case True
  then show ?thesis by simp
next
  case False
  then show ?thesis using assms(3)
    by (cases "mpc s")
      (auto simp: main_step_def allocateNode_def Let_def malloc_node_def set_node_def
        split: list.splits option.splits sum.splits if_splits)
qed

lemma step_workers_length:
  assumes "invariant xs s"
  shows "length (workers (step t s)) = length (workers s)"
  using assms
  by (cases t) (simp_all add: step_def main_step_workers worker_step_length)

lemma step_other_worker:
  assumes "invariant xs s" "t \<noteq> Worker j"
  shows "workers (step t s) ! j = workers s ! j"
  using assms
  by (cases t) (auto simp: step_def main_step_workers worker_step_other)

lemma step_W_exit:
  assumes "wpc (workers s ! j) = W_exit"
  shows "step (Worker j) s = s"
  using assms by (simp add: step_def worker_step_def Let_def)

lemma exec_workers_length:
  "invariant xs s \<Longrightarrow> length (workers (exec sched s)) = length (workers s)"
  by (induction sched arbitrary: s) (simp_all add: step_preserves step_workers_length)

lemma exec_W_exit:
  "invariant xs s \<Longrightarrow> wpc (workers s ! j) = W_exit \<Longrightarrow>
   wpc (workers (exec sched s) ! j) = W_exit"
proof (induction sched arbitrary: s)
  case Nil
  then show ?case by simp
next
  case (Cons t ts)
  have "workers (step t s) ! j = workers s ! j"
  proof (cases "t = Worker j")
    case True
    then show ?thesis using Cons.prems(2) by (simp add: step_W_exit)
  next
    case False
    then show ?thesis by (rule step_other_worker [OF Cons.prems(1)])
  qed
  then show ?case using Cons by (simp add: step_preserves)
qed

lemma mset_concat_update:
  "i < length ws \<Longrightarrow>
   mset (concat (map f (ws[i := w]))) + mset (f (ws ! i)) = mset (concat (map f ws)) + mset (f w)"
proof (induction ws arbitrary: i)
  case Nil
  then show ?case by simp
next
  case (Cons a ws)
  show ?case
  proof (cases i)
    case 0
    then show ?thesis by simp
  next
    case (Suc k)
    then have "k < length ws" using Cons.prems by simp
    from Cons.IH [OF this] show ?thesis using Suc by (simp add: ac_simps)
  qed
qed

text \<open>One step of a worker: what it takes joins what it holds, what it returns leaves it.\<close>

lemma worker_step_update:
  "workers (worker_step i s) = (workers s)[i := workers (worker_step i s) ! i]"
proof (rule nth_equalityI)
  show "length (workers (worker_step i s)) =
        length ((workers s)[i := workers (worker_step i s) ! i])"
    by (simp add: worker_step_length)
next
  fix j assume "j < length (workers (worker_step i s))"
  then have j: "j < length (workers s)" by (simp add: worker_step_length)
  show "workers (worker_step i s) ! j = (workers s)[i := workers (worker_step i s) ! i] ! j"
  proof (cases "j = i")
    case True
    then show ?thesis using j by simp
  next
    case False
    then show ?thesis by (simp add: worker_step_other)
  qed
qed

lemma worker_step_held:
  assumes "exited s = None" "i < length (workers s)"
  shows "mset (took (Worker i) s) + mset (held (workers s ! i)) =
         mset (gave (Worker i) s) + mset (held (workers (worker_step i s) ! i))"
  using assms
  by (cases "wpc (workers s ! i)")
    (simp_all add: worker_step_def Let_def set_worker_def took_def gave_def held_def
      split: option.splits)

lemma step_held:
  assumes "invariant xs s"
  shows "mset (took t s) + mset (concat (map held (workers s))) =
         mset (gave t s) + mset (concat (map held (workers (step t s))))"
proof (cases "exited s = None")
  case False
  then show ?thesis by (cases t) (simp_all add: step_def took_def gave_def)
next
  case e: True
  show ?thesis
  proof (cases t)
    case Main
    then show ?thesis using e main_step_workers [OF assms e]
      by (simp add: step_def took_def gave_def)
  next
    case (Worker i)
    show ?thesis
    proof (cases "i < length (workers s)")
      case False
      then show ?thesis using e Worker by (simp add: step_def took_def gave_def)
    next
      case True
      define w' where "w' = workers (worker_step i s) ! i"
      have w: "workers (worker_step i s) = (workers s)[i := w']"
        unfolding w'_def by (rule worker_step_update)
      have m: "mset (took (Worker i) s) + mset (held (workers s ! i)) =
            mset (gave (Worker i) s) + mset (held w')"
        unfolding w'_def by (rule worker_step_held [OF e True])
      have st: "step t s = worker_step i s" using e True Worker by (simp add: step_def)
      have "mset (took t s) + mset (concat (map held (workers s))) + mset (held w') =
            mset (took t s) + (mset (concat (map held ((workers s)[i := w']))) +
              mset (held (workers s ! i)))"
        using mset_concat_update [OF True, of held w'] by (simp add: ac_simps)
      also have "\<dots> = mset (gave t s) + mset (held w') +
            mset (concat (map held ((workers s)[i := w'])))"
        using m Worker by (simp add: ac_simps)
      finally show ?thesis using st w by simp
    qed
  qed
qed

lemma mset_chain:
  fixes A :: "'a multiset"
  assumes "A + H = G + H'" "T + H' = R + H''"
  shows "A + T + H = G + R + H''"
proof -
  have "A + T + H = (A + H) + T" by (simp add: ac_simps)
  also have "\<dots> = G + (T + H')" unfolding assms(1) by (simp add: ac_simps)
  also have "\<dots> = G + R + H''" unfolding assms(2) by (simp add: ac_simps)
  finally show ?thesis .
qed

lemma exec_held:
  "invariant xs s \<Longrightarrow>
   mset (taken_values sched s) + mset (concat (map held (workers s))) =
   mset (returned_values sched s) + mset (concat (map held (workers (exec sched s))))"
proof (induction sched arbitrary: s)
  case Nil
  then show ?case by simp
next
  case (Cons t ts)
  have i: "invariant xs (step t s)" by (rule step_preserves [OF Cons.prems])
  show ?case
    using mset_chain [OF step_held [OF Cons.prems, of t] Cons.IH [OF i]] by simp
qed

lemma step_dead:
  assumes "invariant xs s" "\<not> live s"
  shows "step t s = s"
proof (cases "exited s = None")
  case False
  then show ?thesis by (simp add: step_def)
next
  case True
  then have p: "mpc s = P_end" using assms(2) by (simp add: live_def)
  have "\<forall>w \<in> set (workers s). wpc w = W_exit"
    using assms(1) p by (simp add: invariant_def report_inv_def)
  then have w: "i < length (workers s) \<Longrightarrow> worker_step i s = s" for i
    by (simp add: worker_step_def Let_def)
  show ?thesis using True p w by (cases t) (simp_all add: step_def main_step_def)
qed

lemma took_dead: "\<not> live s \<Longrightarrow> invariant xs s \<Longrightarrow> took t s = []"
  by (cases t) (auto simp: took_def live_def invariant_def report_inv_def)

lemma exec_dead:
  assumes "invariant xs s" "\<not> live s"
  shows "exec sched s = s" "taken_values sched s = []"
proof -
  show "exec sched s = s" by (induction sched) (simp_all add: step_dead [OF assms])
  show "taken_values sched s = []"
    by (induction sched) (simp_all add: step_dead [OF assms] took_dead [OF assms(2,1)])
qed

lemma live_head:
  assumes "invariant xs s" "live s"
  shows "q_head s = Some (qh s)" "qh s \<le> qt s" "qt s \<le> length xs"
proof -
  have e: "exited s = None" and ne: "mpc s \<noteq> P_end" using assms(2) by (simp_all add: live_def)
  note L = invariant_live [OF assms(1) e ne]
  show "q_head s = Some (qh s)" "qh s \<le> qt s" using L(1) by (simp_all add: queue_inv_def)
  have "qt s \<le> linked s" using L(1) by (simp add: queue_inv_def)
  moreover have "linked s \<le> nodes s" by (simp add: linked_def)
  moreover have "nodes s \<le> length xs" using L(2) by (simp add: input_inv_def)
  ultimately show "qt s \<le> length xs" by simp
qed

lemma live_printing:
  assumes "invariant xs s" "live s" "mpc s \<in> {P_print, P_free}"
  shows "qh s = length xs"
proof -
  have e: "exited s = None" and ne: "mpc s \<noteq> P_end" using assms(2) by (simp_all add: live_def)
  note L = invariant_live [OF assms(1) e ne]
  have ex: "\<forall>w \<in> set (workers s). wpc w = W_exit"
    using L(6) assms(3) by (auto simp: report_inv_def)
  have "qh s = nodes s" by (rule all_exited(1) [OF L(1) L(5) ex])
  moreover have "nodes s = length xs" using L(2) assms(3) by (auto simp: input_inv_def)
  ultimately show ?thesis by simp
qed

lemma live_printed:
  assumes "invariant xs s" "live s" "stdout s \<noteq> None"
  shows "qh s = length xs"
proof -
  have "mpc s = P_free"
    using assms by (auto simp: invariant_def report_inv_def live_def)
  then show ?thesis using live_printing [OF assms(1,2)] by simp
qed

text \<open>
  A step that leaves the run going either takes nothing and leaves \<open>head\<close>, or takes the
  value of the node after \<open>head\<close>, the next of the input, and moves \<open>head\<close> to that node.
\<close>

lemma step_take:
  assumes "invariant xs s" "live s" "live (step t s)"
  shows "took t s = [] \<and> qh (step t s) = qh s \<or>
         took t s = [xs ! qh s] \<and> qh (step t s) = Suc (qh s) \<and> qh s < length xs"
proof -
  have e: "exited s = None" and ne: "mpc s \<noteq> P_end" using assms(2) by (simp_all add: live_def)
  note L = invariant_live [OF assms(1) e ne]
  note H = live_head [OF assms(1,2)]
  show ?thesis
  proof (cases t)
    case Main
    have "mpc s \<noteq> P_free"
    proof
      assume f: "mpc s = P_free"
      have "mpc (main_step s) = P_end" using main_P_free_step [OF assms(1) e f] by simp
      then show False using assms(3) Main e by (simp add: live_def step_def)
    qed
    then have "q_head (step t s) = q_head s" using Main e by (simp add: step_def main_step_q_head)
    then show ?thesis using Main by (simp add: took_def qh_def)
  next
    case (Worker i)
    show ?thesis
    proof (cases "i < length (workers s)")
      case False
      then show ?thesis using Worker e by (simp add: step_def took_def)
    next
      case True
      let ?w = "workers s ! i"
      have st: "step t s = worker_step i s" using Worker e True by (simp add: step_def)
      show ?thesis
      proof (cases "wpc ?w = D_cas \<and> q_head s = d_head ?w")
        case False
        then have "q_head (step t s) = q_head s" unfolding st by (auto simp: worker_step_q_head)
        then show ?thesis using False Worker by (auto simp: took_def qh_def)
      next
        case c: True
        have "?w \<in> set (workers s)" using True by simp
        then have "worker_inv xs s ?w" using L(5) by blast
        then have wi: "tail_ok s ?w" "next_set ?w" "the (d_head ?w) < the (d_tail ?w)"
          "d_value ?w = xs ! the (d_head ?w)"
          using c by (simp_all add: worker_inv_def)
        have hd: "the (d_head ?w) = qh s" using c by (simp add: qh_def)
        have "q_head (step t s) = Some (Suc (qh s))"
          unfolding st using c wi(2) hd by (simp add: worker_step_q_head next_set_def)
        moreover have "took t s = [xs ! qh s]"
          using Worker e True c wi(4) hd by (simp add: took_def)
        moreover have "qh s < length xs"
          using wi(1,3) hd H(3) by (simp add: tail_ok_def)
        ultimately show ?thesis by (simp add: qh_def)
      qed
    qed
  qed
qed

lemma step_dies:
  assumes "invariant xs s" "live s" "\<not> live (step t s)"
  shows "took t s = []" "stdout (step t s) \<noteq> None \<Longrightarrow> qh s = length xs"
proof -
  have e: "exited s = None" and ne: "mpc s \<noteq> P_end" using assms(2) by (simp_all add: live_def)
  have i': "invariant xs (step t s)" by (rule step_preserves [OF assms(1)])
  show "took t s = []"
  proof (cases t)
    case Main
    then show ?thesis by (simp add: took_def)
  next
    case (Worker i)
    show ?thesis
    proof (rule ccontr)
      assume "took t s \<noteq> []"
      then have c: "i < length (workers s)" "wpc (workers s ! i) = D_cas"
        using Worker by (simp_all add: took_def split: if_splits)
      then have "exited (worker_step i s) = None"
        using e by (simp add: worker_step_def Let_def set_worker_def)
      then have "live (step t s)"
        using Worker e c ne by (simp add: step_def live_def worker_step_mpc)
      then show False using assms(3) by simp
    qed
  qed
  assume "stdout (step t s) \<noteq> None"
  then have m: "mpc (step t s) \<in> {P_free, P_end}"
    using i' by (auto simp: invariant_def report_inv_def)
  have "mpc s \<in> {P_print, P_free, P_end}"
  proof (cases t)
    case Main
    then show ?thesis using m e main_step_mpc_back [OF assms(1) e] by (simp add: step_def)
  next
    case (Worker i)
    then have "mpc (step t s) = mpc s" by (simp add: step_def worker_step_mpc)
    then show ?thesis using m by auto
  qed
  then show "qh s = length xs" using live_printing [OF assms(1,2)] ne by simp
qed

lemma take_step:
  assumes "a < length xs" "Suc a \<le> k"
  shows "xs ! a # take (k - Suc a) (drop (Suc a) xs) = take (k - a) (drop a xs)"
proof -
  have "k - a = Suc (k - Suc a)" using assms(2) by simp
  moreover have "drop a xs = xs ! a # drop (Suc a) xs"
    using assms(1) by (simp add: Cons_nth_drop_Suc)
  ultimately show ?thesis by simp
qed

lemma exec_takes:
  "invariant xs s \<Longrightarrow> live s \<Longrightarrow>
   \<exists>k. qh s \<le> k \<and> k \<le> length xs \<and>
       taken_values sched s = take (k - qh s) (drop (qh s) xs) \<and>
       (live (exec sched s) \<longrightarrow> k = qh (exec sched s)) \<and>
       (stdout (exec sched s) \<noteq> None \<longrightarrow> k = length xs)"
proof (induction sched arbitrary: s)
  case Nil
  have "qh s \<le> length xs" using live_head [OF Nil] by simp
  then show ?case using live_printed [OF Nil] by auto
next
  case (Cons t ts)
  have i': "invariant xs (step t s)" by (rule step_preserves [OF Cons.prems(1)])
  have le: "qh s \<le> length xs" using live_head [OF Cons.prems] by simp
  show ?case
  proof (cases "live (step t s)")
    case False
    note d = exec_dead [OF i' False, of ts]
    note sd = step_dies [OF Cons.prems False]
    have "taken_values (t # ts) s = take (qh s - qh s) (drop (qh s) xs)" using d sd by simp
    moreover have "\<not> live (exec (t # ts) s)" using d False by simp
    moreover have "stdout (exec (t # ts) s) \<noteq> None \<longrightarrow> qh s = length xs"
      using d sd(2) by simp
    ultimately show ?thesis using le by blast
  next
    case True
    from Cons.IH [OF i' True] obtain k where
      k: "qh (step t s) \<le> k" "k \<le> length xs"
        "taken_values ts (step t s) = take (k - qh (step t s)) (drop (qh (step t s)) xs)"
        "live (exec ts (step t s)) \<longrightarrow> k = qh (exec ts (step t s))"
        "stdout (exec ts (step t s)) \<noteq> None \<longrightarrow> k = length xs"
      by blast
    from step_take [OF Cons.prems True]
    have "qh s \<le> k \<and> taken_values (t # ts) s = take (k - qh s) (drop (qh s) xs)"
    proof
      assume "took t s = [] \<and> qh (step t s) = qh s"
      then show ?thesis using k by simp
    next
      assume a: "took t s = [xs ! qh s] \<and> qh (step t s) = Suc (qh s) \<and> qh s < length xs"
      then have "Suc (qh s) \<le> k" using k(1) by simp
      from take_step [OF _ this, of xs] a k(3) show ?thesis using k(1) by simp
    qed
    then show ?thesis using k(2,4,5) by auto
  qed
qed

lemma start_live:
  assumes "live (start limit numCPU xs)"
  shows "qh (start limit numCPU xs) = 0"
    "concat (map held (workers (start limit numCPU xs))) = []"
proof -
  have "0 < limit"
    using assms
    by (auto simp: live_def start_def createQueue_def malloc_node_def boot_def
        split: if_splits)
  then show "qh (start limit numCPU xs) = 0"
    by (simp add: start_def createQueue_def malloc_node_def boot_def createMemoryPool_def qh_def)
  have "workers (start limit numCPU xs) = replicate (nat (max numCPU 1)) new_worker"
    by (simp add: start_def createQueue_def malloc_node_def boot_def createMemoryPool_def)
  then show "concat (map held (workers (start limit numCPU xs))) = []"
    by (simp add: held_def new_worker_def)
qed

lemma held_exited:
  "\<forall>w \<in> set ws. wpc w = W_exit \<Longrightarrow> concat (map held ws) = []"
  by (induction ws) (simp_all add: held_def)

text \<open>
  Claim C2, as the code has it. In every run, under every schedule and with any number
  of workers, the values the dequeues take off the queue are, in the order of their
  compare-and-swaps of \<open>head\<close>, the first \<open>k\<close> values of the input, which is the order of
  the enqueues: none is taken twice, none is passed over, none is taken before one
  enqueued earlier. The values returned so far, with those of the dequeues that have
  taken a value and not yet returned, are these same \<open>k\<close> values, each once. When the run
  has printed its total, every value of the input has been taken and returned, each
  exactly once.
\<close>

theorem dequeues_take_in_order:
  "\<exists>k \<le> length xs.
     taken_values sched (start limit numCPU xs) = take k xs \<and>
     mset (returned_values sched (start limit numCPU xs)) +
       mset (concat (map held (workers (run limit numCPU xs sched)))) = mset (take k xs) \<and>
     (stdout (run limit numCPU xs sched) \<noteq> None \<longrightarrow>
        taken_values sched (start limit numCPU xs) = xs \<and>
        mset (returned_values sched (start limit numCPU xs)) = mset xs)"
proof -
  let ?s = "start limit numCPU xs"
  have i: "invariant xs ?s" by (rule invariant_start)
  have r: "run limit numCPU xs sched = exec sched ?s" by (simp add: run_def)
  show ?thesis
  proof (cases "live ?s")
    case False
    note d = exec_dead [OF i False, of sched]
    have "stdout ?s = None" using False i
      by (auto simp: start_def createQueue_def malloc_node_def boot_def createMemoryPool_def
          live_def split: if_splits)
    moreover have "mset (returned_values sched ?s) +
        mset (concat (map held (workers (exec sched ?s)))) = {#}"
      using exec_held [OF i, of sched] d
      by (simp add: start_def createQueue_def malloc_node_def boot_def createMemoryPool_def
          held_def new_worker_def split: if_splits)
    ultimately show ?thesis using d r by (intro exI [of _ 0]) simp
  next
    case True
    note z = start_live [OF True]
    from exec_takes [OF i True, of sched] z(1) obtain k where
      k: "k \<le> length xs" "taken_values sched ?s = take k xs"
        "stdout (exec sched ?s) \<noteq> None \<longrightarrow> k = length xs"
      by auto
    have h: "mset (returned_values sched ?s) +
        mset (concat (map held (workers (exec sched ?s)))) = mset (take k xs)"
      using exec_held [OF i, of sched] z(2) k(2) by simp
    have "mset (returned_values sched ?s) = mset xs" if p: "stdout (exec sched ?s) \<noteq> None"
    proof -
      have "invariant xs (exec sched ?s)" by (rule exec_preserves [OF i])
      then have "\<forall>w \<in> set (workers (exec sched ?s)). wpc w = W_exit"
        using p by (auto simp: invariant_def report_inv_def)
      then have c: "concat (map held (workers (exec sched ?s))) = []" by (rule held_exited)
      have "k = length xs" using k(3) p by simp
      then show ?thesis using h unfolding c by simp
    qed
    then show ?thesis using k h r by (intro exI [of _ k]) simp
  qed
qed

theorem dequeues_take_in_order_witness:
  "stdout (run 8 2 [5, 7] (replicate 22 Main @ replicate 7 (Worker 0) @ replicate 10 (Worker 1) @
      replicate 3 (Worker 0) @ [Main, Main, Worker 0, Worker 0, Worker 1, Worker 1, Main, Main]))
     = Some 2 \<and>
   taken_values (replicate 22 Main @ replicate 7 (Worker 0) @ replicate 10 (Worker 1) @
      replicate 3 (Worker 0) @ [Main, Main, Worker 0, Worker 0, Worker 1, Worker 1, Main, Main])
     (start 8 2 [5, 7]) = [5, 7] \<and>
   mset (returned_values (replicate 22 Main @ replicate 7 (Worker 0) @ replicate 10 (Worker 1) @
      replicate 3 (Worker 0) @ [Main, Main, Worker 0, Worker 0, Worker 1, Worker 1, Main, Main])
     (start 8 2 [5, 7])) = mset [5, 7]"
proof -
  let ?sched = "replicate 22 Main @ replicate 7 (Worker 0) @ replicate 10 (Worker 1) @
      replicate 3 (Worker 0) @ [Main, Main, Worker 0, Worker 0, Worker 1, Worker 1, Main, Main]"
  have p: "stdout (run 8 2 [5, 7] ?sched) = Some 2" by code_simp
  from dequeues_take_in_order [of "[5, 7]" ?sched 8 2] p show ?thesis by auto
qed

text \<open>
  Claim C2 as it is written fails with two workers on the input \<open>5 7\<close>. The enqueue of
  \<open>5\<close> is complete before that of \<open>7\<close> begins. Worker 0 takes \<open>5\<close> (its compare-and-swap
  of \<open>head\<close> succeeds) and is not scheduled; worker 1 takes \<open>7\<close> and returns it; then
  worker 0 returns \<open>5\<close>: taken in the order \<open>5 7\<close>, returned in the order \<open>7 5\<close>.
\<close>

theorem later_value_returned_first:
  "taken_values (replicate 22 Main @ replicate 7 (Worker 0) @ replicate 8 (Worker 1) @ [Worker 0])
     (start 8 2 [5, 7]) = [5, 7] \<and>
   returned_values (replicate 22 Main @ replicate 7 (Worker 0) @ replicate 8 (Worker 1) @ [Worker 0])
     (start 8 2 [5, 7]) = [7, 5] \<and>
   mpc (run 8 2 [5, 7] (replicate 11 Main)) = P_scan \<and>
   stdin (run 8 2 [5, 7] (replicate 11 Main)) = [7] \<and>
   sint (q_size (run 8 2 [5, 7] (replicate 11 Main))) = 1"
  by (intro conjI; code_simp)

lemma D_check_step:
  assumes "exited s = None" "i < length (workers s)" "wpc (workers s ! i) = D_check"
  shows "wpc (workers (step (Worker i) s) ! i) = W_num \<longleftrightarrow> returns_empty i s"
    "returns_empty i s \<Longrightarrow>
     step (Worker i) s = set_worker i ((workers s ! i)\<lparr>w_num := - 1, wpc := W_num\<rparr>) s"
  using assms
  by (auto simp: step_def worker_step_def Let_def set_worker_def returns_empty_def)

lemma empty_call_searching:
  "empty_call i sched s \<Longrightarrow>
   exited s = None \<and> i < length (workers s) \<and> searching (wpc (workers s ! i))"
  by (cases sched) simp_all

lemma searching_step:
  assumes "exited s = None" "i < length (workers s)" "searching (wpc (workers s ! i))"
    "searching (wpc (workers (step (Worker i) s) ! i))"
  shows "q_head (step (Worker i) s) = q_head s" "q_size (step (Worker i) s) = q_size s"
    "heap (step (Worker i) s) = heap s"
proof -
  have st: "step (Worker i) s = worker_step i s" using assms(1,2) by (simp add: step_def)
  have "\<not> (wpc (workers s ! i) = D_cas \<and> q_head s = d_head (workers s ! i))"
  proof
    assume "wpc (workers s ! i) = D_cas \<and> q_head s = d_head (workers s ! i)"
    then have "wpc (workers (worker_step i s) ! i) = D_dec"
      using assms(2) by (simp add: worker_step_def Let_def set_worker_def)
    then show False using assms(4) st by simp
  qed
  then show "q_head (step (Worker i) s) = q_head s"
    unfolding st by (auto simp: worker_step_q_head)
  have "wpc (workers s ! i) \<noteq> D_dec" using assms(3) by auto
  then show "q_size (step (Worker i) s) = q_size s"
    unfolding st by (simp add: worker_step_q_size)
  show "heap (step (Worker i) s) = heap s" unfolding st by (rule worker_step_heap)
qed

lemma empty_call_keeps: "empty_call i sched s \<Longrightarrow> keeps i sched s"
proof (induction sched arbitrary: s)
  case Nil
  then show ?case by simp
next
  case (Cons t ts)
  then have a: "exited s = None" "i < length (workers s)" "searching (wpc (workers s ! i))"
    by simp_all
  show ?case
  proof (cases "ts = []")
    case True
    then have r: "t = Worker i" "returns_empty i s" using Cons.prems by simp_all
    then have c: "wpc (workers s ! i) = D_check" by (simp add: returns_empty_def)
    have "step (Worker i) s = set_worker i ((workers s ! i)\<lparr>w_num := - 1, wpc := W_num\<rparr>) s"
      by (rule D_check_step(2) [OF a(1,2) c r(2)])
    then show ?thesis using True r by (simp add: set_worker_def)
  next
    case False
    then have e: "empty_call i ts (step t s)" using Cons.prems by simp
    then have k: "keeps i ts (step t s)" by (rule Cons.IH)
    have "searching (wpc (workers (step t s) ! i))" using empty_call_searching [OF e] by simp
    then have "t = Worker i \<Longrightarrow>
         q_head (step t s) = q_head s \<and> q_size (step t s) = q_size s \<and>
         heap (step t s) = heap s"
      using searching_step [OF a] by simp
    then show ?thesis using k by auto
  qed
qed

text \<open>The moment a call reads \<open>head->next\<close>, and what follows until its re-check.\<close>

lemma exec_live_back:
  "invariant xs s \<Longrightarrow> live (exec ts s) \<Longrightarrow> live s \<and> qh s \<le> qh (exec ts s)"
proof (induction ts arbitrary: s)
  case Nil
  then show ?case by simp
next
  case (Cons t ts)
  have i': "invariant xs (step t s)" by (rule step_preserves [OF Cons.prems(1)])
  from Cons.IH [OF i'] Cons.prems(2)
  have l': "live (step t s)" and q: "qh (step t s) \<le> qh (exec ts (step t s))" by simp_all
  have l: "live s"
  proof (rule ccontr)
    assume "\<not> live s"
    then have "step t s = s" by (rule step_dead [OF Cons.prems(1)])
    then show False using l' \<open>\<not> live s\<close> by simp
  qed
  from step_take [OF Cons.prems(1) l l'] have "qh s \<le> qh (step t s)" by auto
  then show ?case using l q by simp
qed

lemma exec_other_worker:
  "invariant xs s \<Longrightarrow> Worker i \<notin> set ts \<Longrightarrow> workers (exec ts s) ! i = workers s ! i"
proof (induction ts arbitrary: s)
  case Nil
  then show ?case by simp
next
  case (Cons t ts)
  have "t \<noteq> Worker i" using Cons.prems(2) by auto
  then have "workers (step t s) ! i = workers s ! i"
    by (rule step_other_worker [OF Cons.prems(1)])
  then show ?case using Cons by (simp add: step_preserves)
qed

lemma unconsumed_none:
  assumes "node_at m (q_head m) = Some hn" "node_next hn = None"
  shows "unconsumed m = []"
proof (cases "length (heap m)")
  case 0
  then show ?thesis by (simp add: unconsumed_def)
next
  case (Suc k)
  then show ?thesis using assms by (simp add: unconsumed_def node_at_def)
qed

lemma empty_when_read:
  assumes i: "invariant xs s" and e: "exited s = None" and n: "i < length (workers s)"
    and pc: "wpc (workers s ! i) = D_next" and o: "Worker i \<notin> set ts"
    and e2: "exited (exec ts (step (Worker i) s)) = None"
    and r: "returns_empty i (exec ts (step (Worker i) s))"
  shows "q_head s = d_head (workers s ! i)" "queue_empty s" "unconsumed s = []"
proof -
  let ?w = "workers s ! i"
  let ?s1 = "step (Worker i) s"
  let ?s2 = "exec ts ?s1"
  have wne: "wpc ?w \<noteq> W_exit" using pc by simp
  note L = worker_live [OF i e n wne]
  have ok: "head_ok s ?w" using L(7) pc by (simp add: worker_inv_def)
  have ne: "mpc s \<noteq> P_end" using L(8) by simp
  have ls: "live s" using e ne by (simp add: live_def)
  note H = live_head [OF i ls]
  have hq: "the (d_head ?w) \<le> qh s" and hs: "d_head ?w = Some (the (d_head ?w))"
    using ok by (simp_all add: head_ok_def)
  have "qh s \<le> nodes s"
    using L(1) by (simp add: queue_inv_def linked_def) linarith
  then have na: "node_at s (d_head ?w) = cell xs (linked s) (the (d_head ?w))"
    using node_at_cell [OF L(1), of "the (d_head ?w)"] hq hs by simp
  have st: "?s1 = set_worker i (?w\<lparr>d_next := (if the (d_head ?w) < linked s
      then Some (Suc (the (d_head ?w))) else None), wpc := D_check\<rparr>) s"
    using e n pc na by (simp add: step_def worker_step_def Let_def cell_def)
  have i1: "invariant xs ?s1" by (rule step_preserves [OF i])
  have i2: "invariant xs ?s2" by (rule exec_preserves [OF i1])
  have w2: "workers ?s2 ! i = workers ?s1 ! i" by (rule exec_other_worker [OF i1 o])
  have w1: "workers ?s1 ! i = ?w\<lparr>d_next := (if the (d_head ?w) < linked s
      then Some (Suc (the (d_head ?w))) else None), wpc := D_check\<rparr>"
    unfolding st using n by (simp add: set_worker_def)
  have n2: "i < length (workers ?s2)"
    using n by (simp add: exec_workers_length [OF i1] step_workers_length [OF i])
  have "wpc (workers ?s2 ! i) \<noteq> W_exit" using w2 w1 by simp
  note L2 = worker_live [OF i2 e2 n2 this]
  have l2: "live ?s2" using e2 L2(8) by (simp add: live_def)
  have h2: "q_head ?s2 = Some (qh ?s2)" by (rule live_head(1) [OF i2 l2])
  from exec_live_back [OF i1 l2] have l1: "live ?s1" and m1: "qh ?s1 \<le> qh ?s2" by simp_all
  have "q_head ?s1 = q_head s" unfolding st by (simp add: set_worker_def)
  then have "qh ?s1 = qh s" by (simp add: qh_def)
  then have m: "qh s \<le> qh ?s2" using m1 by simp
  have "d_head ?w = q_head ?s2" and nx: "\<not> the (d_head ?w) < linked s"
    using r w2 w1 by (simp_all add: returns_empty_def split: if_splits)
  then have "the (d_head ?w) = qh ?s2" using h2 by simp
  then have eq: "the (d_head ?w) = qh s" using hq m by simp
  then show hd: "q_head s = d_head ?w" using hs H(1) by simp
  have lq: "linked s \<le> qh s" using nx eq by simp
  have "qt s \<le> linked s" "q_tail s = Some (qt s)" using L(1) by (simp_all add: queue_inv_def)
  then have tl: "q_tail s = q_head s" using H(1,2) lq by simp
  have nd: "node_at s (q_head s) = cell xs (linked s) (qh s)" using na hd eq by simp
  then show "queue_empty s" using tl lq by (simp add: queue_empty_def cell_def)
  have "node_at s (q_head s) =
      Some \<lparr>node_value = (if qh s = 0 then None else Some (xs ! (qh s - 1))), node_next = None\<rparr>"
    using nd lq by (simp add: cell_def)
  then show "unconsumed s = []" by (rule unconsumed_none) simp
qed

text \<open>
  Claim C5, as the code has it. (1) At its re-check a call returns Empty exactly on the
  test \<open>returns_empty\<close>: the head it read is still the queue's head, equals the tail it
  read, and the next it read is null; that step changes nothing but the worker's own
  variables and is no exit. (2) In a run, a call that returns Empty read \<open>head->next\<close> at a
  moment when that head was the queue's head, head was equal to tail and head's next was
  null, so that no value was waiting. (3) No step of a call that returns Empty changes
  \<open>head\<close>, \<open>size\<close> or a node (an earlier pass of the call may have moved \<open>tail\<close>, see the
  counterexample). (4) Called with no other thread running, on a queue built by
  enqueues and dequeues, \<open>dequeue\<close> returns Empty exactly when no value is waiting, and
  the memory is then what it was.
\<close>

theorem empty_return_contract:
  "(exited s = None \<and> i < length (workers s) \<and> wpc (workers s ! i) = D_check \<longrightarrow>
      (wpc (workers (step (Worker i) s) ! i) = W_num \<longleftrightarrow> returns_empty i s) \<and>
      (returns_empty i s \<longrightarrow>
         step (Worker i) s = set_worker i ((workers s ! i)\<lparr>w_num := - 1, wpc := W_num\<rparr>) s)) \<and>
   (r = run limit numCPU xs sched \<and> exited r = None \<and> j < length (workers r) \<and>
    wpc (workers r ! j) = D_next \<and> Worker j \<notin> set ts \<and>
    exited (exec ts (step (Worker j) r)) = None \<and>
    returns_empty j (exec ts (step (Worker j) r)) \<longrightarrow>
      q_head r = d_head (workers r ! j) \<and> queue_empty r \<and> unconsumed r = []) \<and>
   (empty_call k call c \<longrightarrow> keeps k call c) \<and>
   (is_queue vs h m \<longrightarrow>
      ((\<exists>m'. dequeue m = Some (Inr (Empty, m'))) \<longleftrightarrow> unconsumed m = []) \<and>
      (\<forall>m'. dequeue m = Some (Inr (Empty, m')) \<longrightarrow> m' = m))"
proof (intro conjI impI)
  assume a: "exited s = None \<and> i < length (workers s) \<and> wpc (workers s ! i) = D_check"
  then show "wpc (workers (step (Worker i) s) ! i) = W_num \<longleftrightarrow> returns_empty i s"
    by (intro D_check_step(1)) simp_all
  assume "returns_empty i s"
  then show "step (Worker i) s = set_worker i ((workers s ! i)\<lparr>w_num := - 1, wpc := W_num\<rparr>) s"
    using a by (intro D_check_step(2)) simp_all
next
  assume a: "r = run limit numCPU xs sched \<and> exited r = None \<and> j < length (workers r) \<and>
    wpc (workers r ! j) = D_next \<and> Worker j \<notin> set ts \<and>
    exited (exec ts (step (Worker j) r)) = None \<and>
    returns_empty j (exec ts (step (Worker j) r))"
  then have i: "invariant xs r" by (simp add: invariant_run)
  from a have b: "exited r = None" "j < length (workers r)" "wpc (workers r ! j) = D_next"
    "Worker j \<notin> set ts" "exited (exec ts (step (Worker j) r)) = None"
    "returns_empty j (exec ts (step (Worker j) r))"
    by blast+
  show "q_head r = d_head (workers r ! j)" by (rule empty_when_read(1) [OF i b])
  show "queue_empty r" by (rule empty_when_read(2) [OF i b])
  show "unconsumed r = []" by (rule empty_when_read(3) [OF i b])
next
  assume "empty_call k call c"
  then show "keeps k call c" by (rule empty_call_keeps)
next
  assume q: "is_queue vs h m"
  have "queue_empty m \<longleftrightarrow> unconsumed m = []" using dequeue_alone [of m vs h] q by blast
  then show "(\<exists>m'. dequeue m = Some (Inr (Empty, m'))) \<longleftrightarrow> unconsumed m = []"
    using dequeue_alone [of m vs h] by blast
next
  show "\<forall>m'. dequeue m = Some (Inr (Empty, m')) \<longrightarrow> m' = m"
    using dequeue_alone [of m vs h] by blast
qed

theorem empty_return_contract_witness:
  "wpc (workers (step (Worker 0) (run 8 2 [7] (replicate 4 (Worker 0)))) ! 0) = W_num \<and>
   q_tail (step (Worker 0) (run 8 2 [7] (replicate 4 (Worker 0)))) = Some 0 \<and>
   queue_empty (run 8 2 [7] (replicate 3 (Worker 0))) \<and>
   unconsumed (run 8 2 [7] (replicate 3 (Worker 0))) = [] \<and>
   keeps 0 (replicate 5 (Worker 0) @ replicate 8 (Worker 1) @ replicate 4 (Worker 0))
     (run 8 2 [7] (replicate 9 Main @ [Worker 0])) \<and>
   dequeue \<lparr>heap = [Some \<lparr>node_value = None, node_next = None\<rparr>], heap_limit = 4,
      q_head = Some 0, q_tail = Some 0, q_size = 0, pool_index = 0, pool_nodes = (\<lambda>_. None)\<rparr> =
     Some (Inr (Empty, \<lparr>heap = [Some \<lparr>node_value = None, node_next = None\<rparr>], heap_limit = 4,
      q_head = Some 0, q_tail = Some 0, q_size = 0, pool_index = 0, pool_nodes = (\<lambda>_. None)\<rparr>))"
proof -
  let ?s = "run 8 2 [7] (replicate 4 (Worker 0))"
  let ?r = "run 8 2 [7] (replicate 3 (Worker 0))"
  let ?c = "run 8 2 [7] (replicate 9 Main @ [Worker 0])"
  let ?call = "replicate 5 (Worker 0) @ replicate 8 (Worker 1) @ replicate 4 (Worker 0)"
  let ?m = "\<lparr>heap = [Some \<lparr>node_value = None, node_next = None\<rparr>], heap_limit = 4,
      q_head = Some 0, q_tail = Some 0, q_size = 0, pool_index = 0, pool_nodes = (\<lambda>_. None)\<rparr>"
  have s: "exited ?s = None" "length (workers ?s) = 2" "wpc (workers ?s ! 0) = D_check"
    "returns_empty 0 ?s" "q_tail ?s = Some 0"
    by code_simp+
  have r: "exited ?r = None" "length (workers ?r) = 2" "wpc (workers ?r ! 0) = D_next"
    "exited (exec [Main, Worker 1] (step (Worker 0) ?r)) = None"
    "returns_empty 0 (exec [Main, Worker 1] (step (Worker 0) ?r))"
    by code_simp+
  have c: "empty_call 0 ?call ?c" by code_simp
  have q: "is_queue [] 0 ?m" by (simp add: is_queue_def shaped_def cell_def)
  have u: "unconsumed ?m = []" using unconsumed_is_queue [OF q] by simp
  note t = empty_return_contract [of ?s 0 ?r 8 2 "[7]" "replicate 3 (Worker 0)" 0
      "[Main, Worker 1]" 0 ?call ?c "[]" 0 ?m]
  note t1 = conjunct1 [OF t]
  note t2 = conjunct1 [OF conjunct2 [OF t]]
  note t3 = conjunct1 [OF conjunct2 [OF conjunct2 [OF t]]]
  note t4 = conjunct2 [OF conjunct2 [OF conjunct2 [OF t]]]
  have n: "0 < length (workers ?s)" "0 < length (workers ?r)" using s(2) r(2) by simp_all
  from t1 s(1) n(1) s(3,4) have 1: "wpc (workers (step (Worker 0) ?s) ! 0) = W_num"
    "step (Worker 0) ?s = set_worker 0 ((workers ?s ! 0)\<lparr>w_num := - 1, wpc := W_num\<rparr>) ?s"
    by blast+
  have 2: "q_tail (step (Worker 0) ?s) = Some 0" unfolding 1(2) using s(5) by (simp add: set_worker_def)
  have o: "Worker 0 \<notin> set [Main, Worker 1]" by simp
  have rr: "?r = run 8 2 [7] (replicate 3 (Worker 0))" by (rule refl)
  from t2 rr r(1) n(2) r(3) o r(4,5) have 3: "queue_empty ?r" "unconsumed ?r = []" by blast+
  from t3 c have 4: "keeps 0 ?call ?c" by blast
  from t4 q u obtain m' where d: "dequeue ?m = Some (Inr (Empty, m'))" by blast
  with t4 q have "m' = ?m" by blast
  with d have 5: "dequeue ?m = Some (Inr (Empty, ?m))" by simp
  from 1(1) 2 3 4 5 show ?thesis by blast
qed

text \<open>
  Claim C5 as it is written fails with two workers on the input \<open>7\<close>. \<open>main\<close> has linked
  the node of \<open>7\<close> and not yet moved \<open>tail\<close>. Worker 0 enters \<open>dequeue\<close>, finds head equal
  to tail with a next that is not null, and moves \<open>tail\<close> from node \<open>0\<close> to node \<open>1\<close>.
  Worker 1 dequeues the \<open>7\<close>. Worker 0, in the same call, reads again, finds the queue
  empty and returns \<open>-1\<close>: a call that returns Empty has modified \<open>tail\<close>.
\<close>

theorem empty_call_moves_tail:
  "wpc (workers (run 8 2 [7] (replicate 9 Main @ [Worker 0])) ! 0) = D_head \<and>
   empty_call 0 (replicate 5 (Worker 0) @ replicate 8 (Worker 1) @ replicate 4 (Worker 0))
     (run 8 2 [7] (replicate 9 Main @ [Worker 0])) \<and>
   wpc (workers (run 8 2 [7] (replicate 9 Main @ replicate 5 (Worker 0))) ! 0) = D_help \<and>
   q_tail (run 8 2 [7] (replicate 9 Main @ replicate 5 (Worker 0))) = Some 0 \<and>
   q_tail (step (Worker 0) (run 8 2 [7] (replicate 9 Main @ replicate 5 (Worker 0)))) = Some 1 \<and>
   wpc (workers (run 8 2 [7] (replicate 9 Main @ replicate 6 (Worker 0) @
      replicate 8 (Worker 1) @ replicate 4 (Worker 0))) ! 0) = W_num \<and>
   w_num (workers (run 8 2 [7] (replicate 9 Main @ replicate 6 (Worker 0) @
      replicate 8 (Worker 1) @ replicate 4 (Worker 0))) ! 0) = - 1 \<and>
   w_dequeuedNode (workers (run 8 2 [7] (replicate 9 Main @ replicate 6 (Worker 0) @
      replicate 8 (Worker 1) @ replicate 4 (Worker 0))) ! 0) = None \<and>
   w_num (workers (run 8 2 [7] (replicate 9 Main @ replicate 6 (Worker 0) @
      replicate 8 (Worker 1) @ replicate 4 (Worker 0))) ! 1) = 7"
  by (intro conjI; code_simp)

section \<open>Where the queue's nodes come from\<close>








lemma remaining_le: "remaining s w \<le> 11"
  by (simp add: remaining_def split: worker_pc.splits)

lemma remaining_0: "remaining s w = 0 \<longleftrightarrow> wpc w = W_exit"
  by (simp add: remaining_def split: worker_pc.splits)

lemma sum_list_0_nth:
  "sum_list (map f ws) = (0::nat) \<Longrightarrow> j < length ws \<Longrightarrow> f (ws ! j) = 0"
  by (induction ws arbitrary: j) (auto simp: nth_Cons split: nat.splits)

lemma frozen_facts:
  assumes "frozen xs s"
  shows "queue_inv xs s" "count_inv xs s" "\<forall>w \<in> set (workers s). worker_inv xs s w"
    "linked s = nodes s" "qh s = nodes s" "qt s = nodes s"
    "sum_list (map decrementing (workers s)) = 0"
    "q_head s = Some (nodes s)" "q_tail s = Some (nodes s)" "report_inv xs s"
proof -
  have i: "invariant xs s" and e: "exited s = None" and ne: "mpc s \<noteq> P_end"
    and d: "done_flag s" and z: "sint (q_size s) \<le> 0"
    using assms by (simp_all add: frozen_def)
  note L = invariant_live [OF i e ne]
  show "queue_inv xs s" "count_inv xs s" "\<forall>w \<in> set (workers s). worker_inv xs s w"
    "report_inv xs s"
    by (rule L)+
  have f: "finishing (mpc s)" using L(2) d by (simp add: input_inv_def)
  then have u: "unlinked (mpc s) = 0" "uncounted (mpc s) = 0" by (cases "mpc s"; simp)+
  show lk: "linked s = nodes s" using u by (simp add: linked_def)
  have le: "qh s \<le> qt s" "qt s \<le> linked s" using L(1) by (simp_all add: queue_inv_def)
  have "sint (q_size s) = int (nodes s) - int (qh s) + int (sum_list (map decrementing (workers s)))"
    using L(4) u by (simp add: count_inv_def)
  with z le lk show "qh s = nodes s" "sum_list (map decrementing (workers s)) = 0" by linarith+
  with le lk show "qt s = nodes s" by simp
  show "q_head s = Some (nodes s)" "q_tail s = Some (nodes s)"
    using L(1) \<open>qh s = nodes s\<close> \<open>qt s = nodes s\<close> by (simp_all add: queue_inv_def)
qed

lemma remaining_cong: "q_head s' = q_head s \<Longrightarrow> remaining s' w = remaining s w"
  by (simp add: remaining_def)

lemma frozen_not_D_dec:
  assumes "frozen xs s" "j < length (workers s)"
  shows "wpc (workers s ! j) \<noteq> D_dec"
proof
  assume "wpc (workers s ! j) = D_dec"
  then have "decrementing (workers s ! j) = 1" by (simp add: decrementing_def)
  moreover have "decrementing (workers s ! j) = 0"
    by (rule sum_list_0_nth [OF frozen_facts(7) [OF assms(1)] assms(2)])
  ultimately show False by simp
qed

text \<open>One step of a worker that has not exited, once \<open>done\<close> is set and \<open>size\<close> is zero.\<close>

lemma frozen_step_worker:
  assumes f: "frozen xs s" and j: "j < length (workers s)"
    and ne: "wpc (workers s ! j) \<noteq> W_exit"
  shows "exited (step (Worker j) s) = None" "q_head (step (Worker j) s) = q_head s"
    "q_size (step (Worker j) s) = q_size s"
    "remaining s (workers (step (Worker j) s) ! j) < remaining s (workers s ! j)"
proof -
  let ?w = "workers s ! j"
  have e: "exited s = None" and d: "done_flag s" and z: "sint (q_size s) \<le> 0"
    using f by (simp_all add: frozen_def)
  note F = frozen_facts [OF f]
  have st: "step (Worker j) s = worker_step j s" using e j by (simp add: step_def)
  have "?w \<in> set (workers s)" using j by simp
  then have wi: "worker_inv xs s ?w" using F(3) by blast
  have nd: "wpc ?w \<noteq> D_dec" by (rule frozen_not_D_dec [OF f j])
  have cell_at: "a \<le> nodes s \<Longrightarrow> node_at s (Some a) = cell xs (nodes s) a" for a
    using node_at_cell [OF F(1), of a] F(4) by simp
  have all: "exited (worker_step j s) = None \<and> q_head (worker_step j s) = q_head s \<and>
    remaining s (workers (worker_step j s) ! j) < remaining s ?w"
  proof (cases "wpc ?w")
    case W_done
    then show ?thesis using e j d
      by (simp add: worker_step_def Let_def set_worker_def remaining_def)
  next
    case W_size
    then show ?thesis using e j z
      by (simp add: worker_step_def Let_def set_worker_def remaining_def)
  next
    case D_head
    then show ?thesis using e j
      by (simp add: worker_step_def Let_def set_worker_def remaining_def)
  next
    case D_tail
    then show ?thesis using e j
      by (simp add: worker_step_def Let_def set_worker_def remaining_def)
  next
    case D_next
    then have "head_ok s ?w" using wi by (simp add: worker_inv_def)
    then obtain a where a: "d_head ?w = Some a" "a \<le> nodes s"
      using F(5) by (auto simp: head_ok_def)
    then show ?thesis using e j D_next cell_at [of a]
      by (simp add: worker_step_def Let_def set_worker_def remaining_def cell_def)
  next
    case D_check
    then have ok: "head_ok s ?w" "tail_ok s ?w" "next_ok s ?w"
      using wi by (simp_all add: worker_inv_def)
    show ?thesis
    proof (cases "d_head ?w = q_head s")
      case False
      then show ?thesis using e j D_check
        by (simp add: worker_step_def Let_def set_worker_def remaining_def)
    next
      case True
      then have h: "d_head ?w = Some (nodes s)" using F(8) by simp
      have "the (d_tail ?w) = nodes s" "d_tail ?w \<noteq> None"
        using ok(2) h F(6) by (simp_all add: tail_ok_def)
      then have t: "d_tail ?w = Some (nodes s)" by auto
      have n: "d_next ?w = None" using ok(3) h F(4) by (auto simp: next_ok_def)
      show ?thesis using e j D_check True h t n
        by (simp add: worker_step_def Let_def set_worker_def remaining_def)
    qed
  next
    case D_help
    then have ok: "the (d_tail ?w) < linked s"
      using wi by (auto simp: worker_inv_def)
    have "q_tail s \<noteq> d_tail ?w"
    proof
      assume "q_tail s = d_tail ?w"
      then have "the (d_tail ?w) = nodes s" using F(9) by (metis option.sel)
      then show False using ok F(4) by simp
    qed
    then show ?thesis using e j D_help
      by (simp add: worker_step_def Let_def set_worker_def remaining_def)
  next
    case D_value
    then have ok: "tail_ok s ?w" "next_set ?w" "the (d_head ?w) < the (d_tail ?w)"
      using wi by (simp_all add: worker_inv_def)
    have "Suc (the (d_head ?w)) \<le> nodes s" using ok(1,3) F(6) by (simp add: tail_ok_def)
    from cell_at [OF this] have "node_at s (d_next ?w) =
        Some \<lparr>node_value = Some (xs ! the (d_head ?w)),
              node_next = (if Suc (the (d_head ?w)) < nodes s
                           then Some (Suc (Suc (the (d_head ?w)))) else None)\<rparr>"
      using ok(2) by (simp add: next_set_def cell_def)
    then show ?thesis using e j D_value
      by (simp add: worker_step_def Let_def set_worker_def remaining_def)
  next
    case D_cas
    then have ok: "head_ok s ?w" "tail_ok s ?w" "the (d_head ?w) < the (d_tail ?w)"
      using wi by (simp_all add: worker_inv_def)
    have "the (d_head ?w) < nodes s" using ok(2,3) F(6) by (simp add: tail_ok_def)
    then have "q_head s \<noteq> d_head ?w" using F(8) by (metis option.sel less_irrefl)
    then show ?thesis using e j D_cas
      by (simp add: worker_step_def Let_def set_worker_def remaining_def)
  next
    case D_dec
    then show ?thesis using nd by simp
  next
    case W_num
    obtain b where "isPrime (w_num ?w) = Some b" using isPrime_total [of "w_num ?w"] by auto
    then show ?thesis using e j W_num
      by (simp add: worker_step_def Let_def set_worker_def remaining_def)
  next
    case W_sleep
    then show ?thesis using e j
      by (simp add: worker_step_def Let_def set_worker_def remaining_def)
  next
    case W_add
    then show ?thesis using e j
      by (simp add: worker_step_def Let_def set_worker_def remaining_def)
  next
    case W_exit
    then show ?thesis using ne by simp
  qed
  then show "exited (step (Worker j) s) = None" "q_head (step (Worker j) s) = q_head s"
    "remaining s (workers (step (Worker j) s) ! j) < remaining s (workers s ! j)"
    unfolding st by simp_all
  show "q_size (step (Worker j) s) = q_size s"
    unfolding st using nd by (simp add: worker_step_q_size)
qed

lemma frozen_main:
  assumes f: "frozen xs s" and i: "i < length (workers s)"
    and ne: "wpc (workers s ! i) \<noteq> W_exit"
  shows "step Main s = s"
proof -
  have e: "exited s = None" and d: "done_flag s" and inv: "invariant xs s"
    using f by (simp_all add: frozen_def)
  note L = worker_live [OF inv e i ne]
  have "finishing (mpc s)" using L(2) d by (simp add: input_inv_def)
  then have "mpc s = P_join" using L(8) by (cases "mpc s") simp_all
  moreover have "\<not> (\<forall>w \<in> set (workers s). wpc w = W_exit)" using i ne by auto
  ultimately show ?thesis using e by (auto simp: step_def main_step_def)
qed

lemma frozen_step:
  assumes f: "frozen xs s" and i: "i < length (workers s)"
    and ne: "wpc (workers s ! i) \<noteq> W_exit"
  shows "frozen xs (step t s)" "i < length (workers (step t s))"
    "remaining (step t s) (workers (step t s) ! i) + (if t = Worker i then 1 else 0)
       \<le> remaining s (workers s ! i)"
proof -
  have e: "exited s = None" and d: "done_flag s" and inv: "invariant xs s"
    and pe: "mpc s \<noteq> P_end" and z: "sint (q_size s) \<le> 0"
    using f by (simp_all add: frozen_def)
  have all: "frozen xs (step t s) \<and>
    remaining (step t s) (workers (step t s) ! i) + (if t = Worker i then 1 else 0)
       \<le> remaining s (workers s ! i)"
  proof (cases t)
    case Main
    then show ?thesis using frozen_main [OF f i ne] f by simp
  next
    case (Worker j)
    show ?thesis
    proof (cases "j < length (workers s) \<and> wpc (workers s ! j) \<noteq> W_exit")
      case False
      then have "step t s = s" using Worker e step_W_exit [of s j] by (auto simp: step_def)
      moreover have "j \<noteq> i" using False i ne by auto
      ultimately show ?thesis using f Worker by simp
    next
      case True
      then have j: "j < length (workers s)" and nj: "wpc (workers s ! j) \<noteq> W_exit" by simp_all
      note S = frozen_step_worker [OF f j nj]
      have st: "step t s = worker_step j s" using Worker e j by (simp add: step_def)
      have md: "mpc (step t s) = mpc s" "done_flag (step t s) = done_flag s"
        unfolding st by (simp_all add: worker_step_mpc worker_step_done)
      have fr: "frozen xs (step t s)"
        using step_preserves [OF inv, of t] S(1,3) d pe z md Worker
        by (simp add: frozen_def)
      have rc: "remaining (step t s) w = remaining s w" for w
        using S(2) Worker by (intro remaining_cong) simp
      show ?thesis
      proof (cases "j = i")
        case True
        then show ?thesis using fr S(4) rc Worker by simp
      next
        case False
        then have "workers (step t s) ! i = workers s ! i"
          unfolding st by (simp add: worker_step_other)
        then show ?thesis using fr rc Worker False by simp
      qed
    qed
  qed
  then show "frozen xs (step t s)"
    "remaining (step t s) (workers (step t s) ! i) + (if t = Worker i then 1 else 0)
       \<le> remaining s (workers s ! i)"
    by simp_all
  show "i < length (workers (step t s))" using i by (simp add: step_workers_length [OF inv])
qed

lemma frozen_exit:
  "frozen xs s \<Longrightarrow> i < length (workers s) \<Longrightarrow>
   remaining s (workers s ! i) \<le> count_list sched (Worker i) \<Longrightarrow>
   wpc (workers (exec sched s) ! i) = W_exit"
proof (induction sched arbitrary: s)
  case Nil
  then show ?case by (simp add: remaining_0)
next
  case (Cons t ts)
  have inv: "invariant xs s" using Cons.prems(1) by (simp add: frozen_def)
  show ?case
  proof (cases "wpc (workers s ! i) = W_exit")
    case True
    then show ?thesis by (rule exec_W_exit [OF inv])
  next
    case False
    note S = frozen_step [OF Cons.prems(1,2) False, of t]
    have "remaining (step t s) (workers (step t s) ! i) \<le> count_list ts (Worker i)"
      using S(3) Cons.prems(3) by (auto split: if_splits)
    from Cons.IH [OF S(1,2) this] show ?thesis by simp
  qed
qed

text \<open>In a run, a worker that has exited did so with \<open>done\<close> set and the queue empty.\<close>

lemma exited_worker:
  assumes inv: "invariant xs s" and e: "exited s = None" and j: "j < length (workers s)"
    and x: "wpc (workers s ! j) = W_exit"
  shows "done_flag s" "mpc s \<noteq> P_end \<Longrightarrow> queue_empty s \<and> unconsumed s = []"
proof -
  show "done_flag s"
  proof (cases "mpc s = P_end")
    case True
    then show ?thesis using inv by (simp add: invariant_def report_inv_def)
  next
    case False
    note L = invariant_live [OF inv e False]
    have "workers s ! j \<in> set (workers s)" using j by simp
    then have "worker_inv xs s (workers s ! j)" using L(5) by blast
    then show ?thesis using x by (simp add: worker_inv_def)
  qed
  assume ne: "mpc s \<noteq> P_end"
  note L = invariant_live [OF inv e ne]
  have "workers s ! j \<in> set (workers s)" using j by simp
  then have "worker_inv xs s (workers s ! j)" using L(5) by blast
  then have d: "done_flag s" and q: "qh s = nodes s" using x by (simp_all add: worker_inv_def)
  have "finishing (mpc s)" using L(2) d by (simp add: input_inv_def)
  then have lk: "linked s = nodes s" by (cases "mpc s") (simp_all add: linked_def)
  have qi: "q_head s = Some (qh s)" "q_tail s = Some (qt s)" "qh s \<le> qt s" "qt s \<le> linked s"
    using L(1) by (simp_all add: queue_inv_def)
  then have tl: "q_tail s = q_head s" using q lk by simp
  have nd: "node_at s (q_head s) =
      Some \<lparr>node_value = (if qh s = 0 then None else Some (xs ! (qh s - 1))), node_next = None\<rparr>"
    using node_at_cell [OF L(1), of "qh s"] q lk qi(1) by (simp add: cell_def)
  then have "unconsumed s = []" by (rule unconsumed_none) simp
  moreover have "queue_empty s" using tl nd by (simp add: queue_empty_def)
  ultimately show "queue_empty s \<and> unconsumed s = []" by simp
qed

lemma W_done_step:
  assumes "exited s = None" "i < length (workers s)" "wpc (workers s ! i) = W_done"
  shows "wpc (workers (step (Worker i) s) ! i) = (if done_flag s then W_size else D_head)"
  using assms by (simp add: step_def worker_step_def Let_def set_worker_def)

lemma W_size_step:
  assumes "exited s = None" "i < length (workers s)" "wpc (workers s ! i) = W_size"
  shows "wpc (workers (step (Worker i) s) ! i) =
           (if 0 < sint (q_size s) then D_head else W_exit)"
  using assms by (simp add: step_def worker_step_def Let_def set_worker_def)

lemma exit_step:
  assumes "exited s = None" "i < length (workers s)" "wpc (workers s ! i) \<noteq> W_exit"
    "wpc (workers (step (Worker i) s) ! i) = W_exit"
  shows "wpc (workers s ! i) = W_size \<and> \<not> 0 < sint (q_size s)"
  using assms
  by (cases "wpc (workers s ! i)")
    (auto simp: step_def worker_step_def Let_def set_worker_def split: option.splits if_splits)

lemma frozen_empty:
  assumes "frozen xs s"
  shows "queue_empty s" "unconsumed s = []"
proof -
  note F = frozen_facts [OF assms]
  have nd: "node_at s (q_head s) =
      Some \<lparr>node_value = (if nodes s = 0 then None else Some (xs ! (nodes s - 1))),
            node_next = None\<rparr>"
    using node_at_cell [OF F(1), of "nodes s"] F(4,8) by (simp add: cell_def)
  then show "unconsumed s = []" by (rule unconsumed_none) simp
  show "queue_empty s" using nd F(8,9) by (simp add: queue_empty_def)
qed

text \<open>
  Claim C4. (1) The loop test is two loads: with \<open>done\<close> false the worker goes on to
  \<open>dequeue\<close>; with \<open>done\<close> true it loads \<open>size\<close> and goes on if \<open>size > 0\<close>, and exits
  otherwise; there is no other way out of the loop. (2) In a run, at the step by which a
  worker exits \<open>done\<close> is true, \<open>size\<close> is not positive and the queue is empty: head equals
  tail, head's next is null, no value is waiting. (3) In every state of a run a worker
  that has exited finds \<open>done\<close> true and, as long as the queue exists, the queue empty.
  (4) From any state of a run with \<open>done\<close> true and \<open>size\<close> not positive, whatever the other
  threads do, a worker has exited once it has taken \<open>11\<close> steps: the rest of the poll it
  is in, at most one more pass through \<open>dequeue\<close>, the sleep and the loop test.
\<close>

theorem drain_termination:
  "(exited s = None \<and> i < length (workers s) \<and> wpc (workers s ! i) = W_done \<longrightarrow>
      wpc (workers (step (Worker i) s) ! i) = (if done_flag s then W_size else D_head)) \<and>
   (exited s = None \<and> i < length (workers s) \<and> wpc (workers s ! i) = W_size \<longrightarrow>
      wpc (workers (step (Worker i) s) ! i) = (if 0 < sint (q_size s) then D_head else W_exit)) \<and>
   (exited s = None \<and> i < length (workers s) \<and> wpc (workers s ! i) \<noteq> W_exit \<and>
    wpc (workers (step (Worker i) s) ! i) = W_exit \<longrightarrow>
      wpc (workers s ! i) = W_size \<and> \<not> 0 < sint (q_size s)) \<and>
   (r = run limit numCPU xs sched \<and> exited r = None \<and> j < length (workers r) \<longrightarrow>
      (wpc (workers r ! j) \<noteq> W_exit \<and> wpc (workers (step (Worker j) r) ! j) = W_exit \<longrightarrow>
         done_flag r \<and> sint (q_size r) \<le> 0 \<and> queue_empty r \<and> unconsumed r = []) \<and>
      (wpc (workers r ! j) = W_exit \<longrightarrow>
         done_flag r \<and> (mpc r \<noteq> P_end \<longrightarrow> queue_empty r \<and> unconsumed r = [])) \<and>
      (done_flag r \<and> sint (q_size r) \<le> 0 \<and> 11 \<le> count_list rest (Worker j) \<longrightarrow>
         wpc (workers (exec rest r) ! j) = W_exit))"
proof (intro conjI impI)
  assume "exited s = None \<and> i < length (workers s) \<and> wpc (workers s ! i) = W_done"
  then show "wpc (workers (step (Worker i) s) ! i) = (if done_flag s then W_size else D_head)"
    by (intro W_done_step) simp_all
next
  assume "exited s = None \<and> i < length (workers s) \<and> wpc (workers s ! i) = W_size"
  then show "wpc (workers (step (Worker i) s) ! i) =
      (if 0 < sint (q_size s) then D_head else W_exit)"
    by (intro W_size_step) simp_all
next
  assume a: "exited s = None \<and> i < length (workers s) \<and> wpc (workers s ! i) \<noteq> W_exit \<and>
    wpc (workers (step (Worker i) s) ! i) = W_exit"
  then have "wpc (workers s ! i) = W_size \<and> \<not> 0 < sint (q_size s)"
    by (intro exit_step) simp_all
  then show "wpc (workers s ! i) = W_size" "\<not> 0 < sint (q_size s)" by simp_all
next
  assume a: "r = run limit numCPU xs sched \<and> exited r = None \<and> j < length (workers r)"
  then have inv: "invariant xs r" by (simp add: invariant_run)
  from a have e: "exited r = None" and j: "j < length (workers r)" by blast+
  {
    assume b: "wpc (workers r ! j) \<noteq> W_exit \<and> wpc (workers (step (Worker j) r) ! j) = W_exit"
    then have x: "wpc (workers r ! j) = W_size" "\<not> 0 < sint (q_size r)"
      using exit_step [OF e j] by blast+
    have ne: "wpc (workers r ! j) \<noteq> W_exit" using x(1) by simp
    note L = worker_live [OF inv e j ne]
    have d: "done_flag r" using L(7) x(1) by (simp add: worker_inv_def)
    have f: "frozen xs r" using inv e L(8) d x(2) by (simp add: frozen_def)
    show "done_flag r" by (rule d)
    show "sint (q_size r) \<le> 0" using x(2) by simp
    show "queue_empty r" "unconsumed r = []" by (rule frozen_empty [OF f])+
  }
  {
    assume x: "wpc (workers r ! j) = W_exit"
    show "done_flag r" by (rule exited_worker(1) [OF inv e j x])
    assume "mpc r \<noteq> P_end"
    from exited_worker(2) [OF inv e j x this]
    show "queue_empty r" "unconsumed r = []" by simp_all
  }
  {
    assume b: "done_flag r \<and> sint (q_size r) \<le> 0 \<and> 11 \<le> count_list rest (Worker j)"
    show "wpc (workers (exec rest r) ! j) = W_exit"
    proof (cases "mpc r = P_end")
      case True
      then have "wpc (workers r ! j) = W_exit"
        using inv j by (simp add: invariant_def report_inv_def)
      then show ?thesis by (rule exec_W_exit [OF inv])
    next
      case False
      then have f: "frozen xs r" using inv e b by (simp add: frozen_def)
      have "remaining r (workers r ! j) \<le> count_list rest (Worker j)"
        using remaining_le [of r "workers r ! j"] b by simp
      then show ?thesis by (rule frozen_exit [OF f j])
    qed
  }
qed

theorem drain_termination_witness:
  "wpc (workers (run 4 1 [5] (replicate 11 Main @ replicate 10 (Worker 0) @ [Main, Main])) ! 0)
     = W_done \<and>
   wpc (workers (step (Worker 0)
     (run 4 1 [5] (replicate 11 Main @ replicate 10 (Worker 0) @ [Main, Main]))) ! 0) = W_size \<and>
   wpc (workers (step (Worker 0)
     (run 4 1 [5] (replicate 11 Main @ replicate 10 (Worker 0) @ [Main, Main, Worker 0]))) ! 0)
     = W_exit \<and>
   queue_empty (run 4 1 [5] (replicate 11 Main @ replicate 10 (Worker 0) @ [Main, Main, Worker 0])) \<and>
   queue_empty
     (run 4 1 [5] (replicate 11 Main @ replicate 10 (Worker 0) @ [Main, Main, Worker 0, Worker 0])) \<and>
   wpc (workers (exec (replicate 11 (Worker 0))
     (run 4 1 [5] (replicate 11 Main @ replicate 9 (Worker 0) @ [Main, Main]))) ! 0) = W_exit"
proof -
  let ?a = "run 4 1 [5] (replicate 11 Main @ replicate 10 (Worker 0) @ [Main, Main])"
  let ?b = "run 4 1 [5] (replicate 11 Main @ replicate 10 (Worker 0) @ [Main, Main, Worker 0])"
  let ?c = "run 4 1 [5] (replicate 11 Main @ replicate 10 (Worker 0) @ [Main, Main, Worker 0, Worker 0])"
  let ?d = "run 4 1 [5] (replicate 11 Main @ replicate 9 (Worker 0) @ [Main, Main])"
  have a: "exited ?a = None" "length (workers ?a) = 1" "wpc (workers ?a ! 0) = W_done"
    "done_flag ?a"
    by code_simp+
  have b: "exited ?b = None" "length (workers ?b) = 1" "wpc (workers ?b ! 0) = W_size"
    "\<not> 0 < sint (q_size ?b)" "wpc (workers (step (Worker 0) ?b) ! 0) = W_exit"
    by code_simp+
  have c: "exited ?c = None" "length (workers ?c) = 1" "wpc (workers ?c ! 0) = W_exit"
    "mpc ?c \<noteq> P_end"
    by code_simp+
  have d: "exited ?d = None" "length (workers ?d) = 1" "done_flag ?d" "sint (q_size ?d) \<le> 0"
    "wpc (workers ?d ! 0) = W_add"
    by code_simp+
  have n: "0 < length (workers ?a)" "0 < length (workers ?b)" "0 < length (workers ?c)"
    "0 < length (workers ?d)"
    using a(2) b(2) c(2) d(2) by simp_all
  have k: "11 \<le> count_list (replicate 11 (Worker 0)) (Worker 0)" by code_simp
  note ta = drain_termination [of ?a 0 ?b 4 1 "[5]"
      "replicate 11 Main @ replicate 10 (Worker 0) @ [Main, Main, Worker 0]" 0 "[]"]
  note tc = drain_termination [of ?b 0 ?c 4 1 "[5]"
      "replicate 11 Main @ replicate 10 (Worker 0) @ [Main, Main, Worker 0, Worker 0]" 0 "[]"]
  note td = drain_termination [of ?b 0 ?d 4 1 "[5]"
      "replicate 11 Main @ replicate 9 (Worker 0) @ [Main, Main]" 0 "replicate 11 (Worker 0)"]
  from conjunct1 [OF ta] a(1) n(1) a(3,4)
  have 1: "wpc (workers (step (Worker 0) ?a) ! 0) = W_size" by simp
  from conjunct1 [OF conjunct2 [OF tc]] b(1) n(2) b(3,4)
  have 2: "wpc (workers (step (Worker 0) ?b) ! 0) = W_exit" by simp
  have nb: "wpc (workers ?b ! 0) \<noteq> W_exit" using b(3) by simp
  from conjunct2 [OF conjunct2 [OF conjunct2 [OF ta]]] b(1) n(2) nb b(5)
  have 3: "queue_empty ?b" by blast
  from conjunct2 [OF conjunct2 [OF conjunct2 [OF tc]]] c(1) n(3) c(3,4)
  have 4: "queue_empty ?c" by blast
  from conjunct2 [OF conjunct2 [OF conjunct2 [OF td]]] d(1) n(4) d(3,4) k
  have 5: "wpc (workers (exec (replicate 11 (Worker 0)) ?d) ! 0) = W_exit" by blast
  from a(3) 1 2 3 4 5 show ?thesis by blast
qed


lemma exec_replicate_Suc: "exec (replicate (Suc n) t) s = exec (replicate n t) (step t s)"
  by simp














end
